theory Spec2Isabelle
  imports Complex_Main "HOL-Library.Word"
begin

section \<open>Data model of \<open>roicat/data_importing.py\<close>\<close>

text \<open>
  The module normalises ROI segmentation output into per-session sparse footprint
  matrices, centroids, ROI-centred images and a session-membership matrix.

  Python exceptions are values of \<open>py_error\<close>; a function that can raise returns
  \<open>py_error + 'a\<close> with \<open>Inl\<close> for the exception.

  Footprint weights are floating-point numbers in the source. The functions below store
  them, compare them with zero and add them up. They are modelled as rationals and their
  sums are taken exactly; the two places where the source rounds a quotient of weights (the
  normalisation of the weights of an ROI and the weighted mean of the centroid method) are
  parameters of the model.
\<close>

datatype py_error = ValueError | AssertionError | IndexError | AttributeError

type_synonym weight = rat

text \<open>
  A \<open>scipy.sparse.csr_matrix\<close> of shape \<open>(n, n_cols)\<close>: row \<open>i\<close> is the list of its
  stored \<open>(column, value)\<close> pairs, in storage order (the slice
  \<open>indptr[i]:indptr[i+1]\<close> of \<open>indices\<close> and \<open>data\<close>). A footprint matrix has one row
  per ROI and \<open>FOV_height * FOV_width\<close> columns.
\<close>

record csr_matrix =
  n_cols :: nat
  csr_rows :: "(nat \<times> weight) list list"

definition shape0 :: "csr_matrix \<Rightarrow> nat" where
  "shape0 sf = length (csr_rows sf)"

text \<open>The value of a dense view at \<open>[i, k]\<close>: stored duplicates are summed.\<close>

definition csr_at :: "csr_matrix \<Rightarrow> nat \<Rightarrow> nat \<Rightarrow> weight" where
  "csr_at sf i k = sum_list (map snd (filter (\<lambda>e. fst e = k) (csr_rows sf ! i)))"

text \<open>
  The canonical format of a list of stored \<open>(index, value)\<close> pairs, which
  \<open>sum_duplicates\<close> of \<open>scipy.sparse\<close> and the constructor of \<open>sparse.COO\<close> establish:
  the indices in increasing order, each of them once, with the sum of the values stored
  for it. A sum that is zero stays stored.
\<close>

definition sum_duplicates :: "(nat \<times> weight) list \<Rightarrow> (nat \<times> weight) list" where
  "sum_duplicates es =
     map (\<lambda>k. (k, sum_list (map snd (filter (\<lambda>e. fst e = k) es)))) (sort (remdups (map fst es)))"

section \<open>Session-membership matrix\<close>

text \<open>
  Modelled from the spec: \<open>helpers.idx2bool\<close> is not among the source files. The spec
  describes its result as a one-hot row: a boolean vector of the given length that is
  true exactly at column \<open>idx\<close>.
\<close>

definition idx2bool :: "nat \<Rightarrow> nat \<Rightarrow> bool list" where
  "idx2bool idx len = map (\<lambda>j. j = idx) [0..<len]"

text \<open>
  \<open>np.vstack\<close> first applies \<open>np.atleast_2d\<close> to every block. A block built from an empty
  list of rows, \<open>np.array([row] * 0)\<close>, is a one-dimensional array of length 0, which
  \<open>atleast_2d\<close> turns into one row of width 0. \<open>np.vstack\<close> raises \<open>ValueError\<close> for an
  empty list of blocks and for blocks of different widths.
\<close>

definition atleast_2d :: "bool list list \<Rightarrow> bool list list" where
  "atleast_2d blk = (if blk = [] then [[]] else blk)"

definition np_vstack :: "bool list list list \<Rightarrow> py_error + bool list list" where
  "np_vstack blks =
     (if blks = [] then Inl ValueError
      else let bs = map atleast_2d blks in
           if list_all (\<lambda>b. length (hd b) = length (hd (hd bs))) bs
           then Inr (concat bs) else Inl ValueError)"

text \<open>
  \<open>self.sessionID_concat = np.vstack([np.array([helpers.idx2bool(i_sesh,
  length=len(self.spatialFootprints))]*sesh.shape[0]) for i_sesh, sesh in
  enumerate(self.spatialFootprints)])\<close>, the same expression in \<open>Data_suite2p\<close>,
  \<open>Data_caiman\<close> and \<open>Data_custom\<close>.
\<close>

definition sessionID_concat :: "csr_matrix list \<Rightarrow> py_error + bool list list" where
  "sessionID_concat sfs =
     np_vstack (map (\<lambda>(i_sesh, sesh). replicate (shape0 sesh) (idx2bool i_sesh (length sfs)))
                    (enumerate 0 sfs))"

section \<open>Sparse coordinate arrays and ROI-centred images\<close>

text \<open>
  A three-dimensional \<open>sparse.COO\<close> array: its shape and its stored entries
  \<open>((i, r, c), v)\<close> in storage order. \<open>.coords[0]\<close>, \<open>.coords[1]\<close> and \<open>.coords[2]\<close>
  are the lists of first, second and third coordinates, \<open>.data\<close> the list of values.
\<close>

record coo3 =
  coo_shape :: "nat \<times> nat \<times> nat"
  coo_entries :: "((nat \<times> nat \<times> nat) \<times> weight) list"

text \<open>A two-dimensional \<open>sparse.COO\<close> array, with entries \<open>((i, k), v)\<close>.\<close>

record coo2 =
  coo2_shape :: "nat \<times> nat"
  coo2_entries :: "((nat \<times> nat) \<times> weight) list"

text \<open>A dense three-dimensional array: its shape and its nested rows.\<close>

record dense3 =
  d_shape :: "nat \<times> nat \<times> nat"
  d_data :: "weight list list list"

text \<open>
  \<open>sparse.COO(sf)\<close>: the entries of the matrix, row after row; an entry of row \<open>i\<close> at
  column \<open>k\<close> has coordinates \<open>(i, k)\<close>. The constructor sorts the coordinates and sums
  the values stored at the same coordinates, so every row comes in canonical format.
\<close>

definition coo_of_csr :: "csr_matrix \<Rightarrow> coo2" where
  "coo_of_csr sf =
     \<lparr>coo2_shape = (shape0 sf, n_cols sf),
      coo2_entries =
        concat (map (\<lambda>(i, row). map (\<lambda>(k, v). ((i, k), v)) (sum_duplicates row))
                    (enumerate 0 (csr_rows sf)))\<rparr>"

text \<open>
  \<open>.reshape((a, b, c))\<close> of a two-dimensional COO array of shape \<open>(n, m)\<close>: \<open>ValueError\<close>
  when the sizes differ; otherwise every entry keeps its row-major linear index
  \<open>i * m + k\<close>, which is unravelled in the new shape.
\<close>

definition coo_reshape3 :: "coo2 \<Rightarrow> nat \<times> nat \<times> nat \<Rightarrow> py_error + coo3" where
  "coo_reshape3 x new_shape =
     (case (coo2_shape x, new_shape) of ((n, m), (a, b, c)) \<Rightarrow>
        if n * m \<noteq> a * b * c then Inl ValueError
        else Inr \<lparr>coo_shape = (a, b, c),
                  coo_entries =
                    map (\<lambda>((i, k), v).
                           let lin = i * m + k
                           in ((lin div (b * c), (lin div c) mod b, lin mod c), v))
                        (coo2_entries x)\<rparr>)"

text \<open>\<open>sf_rs.coords[0]\<close>: the ROI index of every stored entry, as signed integers.\<close>

definition coords0 :: "coo3 \<Rightarrow> int list" where
  "coords0 x = map (\<lambda>((i, r, c), v). int i) (coo_entries x)"

text \<open>
  A well-formed matrix: every stored column index is below the number of columns
  (\<open>scipy\<close> refuses to build any other).
\<close>

definition csr_valid :: "csr_matrix \<Rightarrow> bool" where
  "csr_valid sf = list_all (\<lambda>row. list_all (\<lambda>(k, v). k < n_cols sf) row) (csr_rows sf)"

text \<open>\<open>np.diff\<close>, \<open>np.cumsum\<close> and \<open>np.split\<close> (sub-arrays \<open>xs[:i1]\<close>, \<open>xs[i1:i2]\<close>, ..., \<open>xs[ik:]\<close>).\<close>

definition np_diff :: "int list \<Rightarrow> int list" where
  "np_diff xs = map (\<lambda>(a, b). b - a) (zip xs (tl xs))"

fun cumsum_from :: "nat \<Rightarrow> nat list \<Rightarrow> nat list" where
  "cumsum_from acc [] = []"
| "cumsum_from acc (x # xs) = (acc + x) # cumsum_from (acc + x) xs"

definition cumsum :: "nat list \<Rightarrow> nat list" where
  "cumsum xs = cumsum_from 0 xs"

fun np_split_from :: "nat \<Rightarrow> 'a list \<Rightarrow> nat list \<Rightarrow> 'a list list" where
  "np_split_from prev xs [] = [drop prev xs]"
| "np_split_from prev xs (i # idxs) = take (i - prev) (drop prev xs) # np_split_from i xs idxs"

definition np_split :: "'a list \<Rightarrow> nat list \<Rightarrow> 'a list list" where
  "np_split xs idxs = np_split_from 0 xs idxs"

text \<open>\<open>np.ceil(out / 2).astype(int)\<close>.\<close>

definition ceil_half :: "nat \<Rightarrow> int" where
  "ceil_half n = \<lceil>(of_nat n :: rat) / 2\<rceil>"

text \<open>
  An index \<open>k\<close> into an axis of length \<open>len\<close> of a numpy array: an index outside
  \<open>[-len, len)\<close> raises \<open>IndexError\<close>, and a negative index counts from the end of the
  axis.
\<close>

definition np_index_valid :: "nat \<Rightarrow> int \<Rightarrow> bool" where
  "np_index_valid len k = (- int len \<le> k \<and> k < int len)"

definition np_index :: "nat \<Rightarrow> int \<Rightarrow> int" where
  "np_index len k = (if k < 0 then k + int len else k)"

text \<open>
  \<open>.todense()\<close> starts from zeros and assigns \<open>x[coords] = data\<close> with coordinates inside
  the shape: a cell holds the value of the last stored entry with its coordinates, and 0
  when there is none.
\<close>

definition dense_at :: "((nat \<times> int \<times> int) \<times> weight) list \<Rightarrow> nat \<Rightarrow> nat \<Rightarrow> nat \<Rightarrow> weight" where
  "dense_at es i r c =
     (case filter (\<lambda>(p, v). p = (i, int r, int c)) es of [] \<Rightarrow> 0 | e # es' \<Rightarrow> snd (last (e # es')))"

definition todense :: "nat \<times> nat \<times> nat \<Rightarrow> ((nat \<times> int \<times> int) \<times> weight) list \<Rightarrow> dense3" where
  "todense shp es =
     (case shp of (n, h, w) \<Rightarrow>
        \<lparr>d_shape = (n, h, w),
         d_data = map (\<lambda>i. map (\<lambda>r. map (\<lambda>c. dense_at es i r c) [0..<w]) [0..<h]) [0..<n]\<rparr>)"

text \<open>
  \<open>sf_to_centeredROIs(sf, centroids, out_height_width)\<close>, nested in
  \<open>import_ROI_centeredImages\<close>; its text is the same in \<open>Data_suite2p\<close> and in
  \<open>Data_caiman\<close>. \<open>centroids\<close> is the pair \<open>(centroids[0], centroids[1])\<close> of row and
  column centroids.

  \<^item> The first statement, \<open>out_height_width = np.array([36,36])\<close>, overwrites the
    argument.
  \<^item> The assertion compares every difference of \<open>coords[0]\<close> with 1.01 and -0.01.
  \<^item> \<open>idx_split\<close> is the cumulative count, per ROI, of the entries with a value above 0,
    without its last element; the three coordinate arrays are split there, group \<open>ii\<close>
    is translated by centroid \<open>ii\<close> (an \<open>IndexError\<close> when there is none) and the groups
    are concatenated again. The ROI coordinates and the values are left as they are, so
    the model splits the list of entries.
  \<^item> The slice \<open>[:, :out_height_width[0], :out_height_width[1]]\<close> is clipped to the
    shape \<open>(n, FOV_height, FOV_width)\<close> of the array. \<open>sparse\<close> selects the entries by
    the slices up to the last one that is not a whole axis. With more than 36 columns the
    entries with both coordinates inside the window are kept. With at most 36 columns and
    more than 36 rows the entries with the row inside the window are kept, whatever their
    column. With at most 36 rows and columns the array is returned as it is. (The
    selection searches coordinates in sorted order, which they are when the groups of
    \<open>np.split\<close> are the ROIs; the model selects the entries one by one.)
  \<^item> \<open>todense\<close> assigns \<open>x[coords] = data\<close> in numpy with the coordinates that are left:
    a coordinate that no slice selected is read as a numpy index, so a negative one
    counts from the end of its axis and one outside the axis raises \<open>IndexError\<close>.
    When several entries fall on one cell the model keeps the last.
\<close>

definition sf_to_centeredROIs ::
  "nat \<Rightarrow> nat \<Rightarrow> csr_matrix \<Rightarrow> int list \<times> int list \<Rightarrow> nat \<times> nat \<Rightarrow> py_error + dense3" where
  "sf_to_centeredROIs FOV_height FOV_width sf centroids out_height_width_arg =
     (let out_height_width = (36 :: nat, 36 :: nat);
          half_widths = (ceil_half (fst out_height_width), ceil_half (snd out_height_width))
      in case coo_reshape3 (coo_of_csr sf) (shape0 sf, FOV_height, FOV_width) of
           Inl e \<Rightarrow> Inl e
         | Inr sf_rs \<Rightarrow>
             let coords_diff = np_diff (coords0 sf_rs)
             in if \<not> (list_all (\<lambda>d. (of_int d :: rat) < 101 / 100) coords_diff
                       \<and> list_all (\<lambda>d. (of_int d :: rat) > - (1 / 100)) coords_diff)
                then Inl AssertionError
                else
                  let idx_split =
                        butlast (cumsum (map (\<lambda>i. length (filter (\<lambda>((i', r, c), v). i' = i \<and> 0 < v)
                                                            (coo_entries sf_rs)))
                                             [0..<fst (coo_shape sf_rs)]));
                      coords_split = np_split (coo_entries sf_rs) idx_split
                  in if length (fst centroids) < length coords_split
                        \<or> length (snd centroids) < length coords_split
                     then Inl IndexError
                     else
                       let centered =
                             concat (map (\<lambda>(ii, grp).
                                       map (\<lambda>((i, r, c), v).
                                              ((i, int r - fst centroids ! ii + fst half_widths,
                                                   int c - snd centroids ! ii + snd half_widths), v)) grp)
                                     (enumerate 0 coords_split));
                           h = min (fst out_height_width) FOV_height;
                           w = min (snd out_height_width) FOV_width;
                           cols_whole = (FOV_width \<le> snd out_height_width);
                           rows_whole = (cols_whole \<and> FOV_height \<le> fst out_height_width);
                           sliced = filter (\<lambda>((i, r, c), v). (rows_whole \<or> 0 \<le> r \<and> r < int h)
                                                             \<and> (cols_whole \<or> 0 \<le> c \<and> c < int w))
                                      centered
                       in if list_all (\<lambda>((i, r, c), v). np_index_valid h r \<and> np_index_valid w c) sliced
                          then Inr (todense (shape0 sf, h, w)
                                      (map (\<lambda>((i, r, c), v). ((i, np_index h r, np_index w c), v))
                                           sliced))
                          else Inl IndexError)"
section \<open>Centroids\<close>

text \<open>
  Intermediate centroid values are floating-point numbers; \<open>None\<close> stands for a
  non-finite value (\<open>nan\<close> or \<open>inf\<close>). \<open>np.round\<close> rounds halves to the even neighbour.
  \<open>.astype(np.int64)\<close> of a non-finite value has no defined result, so it stays \<open>None\<close>:
  not an integer the footprint determines.
\<close>

definition np_round :: "rat \<Rightarrow> int" where
  "np_round q =
     (let f = \<lfloor>q\<rfloor>; d = q - of_int f
      in if d < 1 / 2 then f else if 1 / 2 < d then f + 1 else if even f then f else f + 1)"

definition round_astype_int64 :: "rat option list \<Rightarrow> int option list" where
  "round_astype_int64 xs = map (map_option np_round) xs"

text \<open>\<open>np.nanmedian\<close> of the values that are not \<open>nan\<close>: \<open>nan\<close> when there is none.\<close>

definition np_nanmedian :: "rat list \<Rightarrow> rat option" where
  "np_nanmedian xs =
     (let ys = sort xs; n = length ys
      in if n = 0 then None
         else if odd n then Some (ys ! (n div 2))
         else Some ((ys ! (n div 2 - 1) + ys ! (n div 2)) / 2))"

text \<open>
  \<open>w_wt = sf_rs.sum(axis=2)\<close> is the weight of every row of every ROI and
  \<open>h_wt = sf_rs.sum(axis=1)\<close> the weight of every column.
\<close>

definition sum_axis2 :: "coo3 \<Rightarrow> nat \<Rightarrow> nat \<Rightarrow> weight" where
  "sum_axis2 x i r = sum_list (map snd (filter (\<lambda>((i', r', c'), v). i' = i \<and> r' = r) (coo_entries x)))"

definition sum_axis1 :: "coo3 \<Rightarrow> nat \<Rightarrow> nat \<Rightarrow> weight" where
  "sum_axis1 x i c = sum_list (map snd (filter (\<lambda>((i', r', c'), v). i' = i \<and> c' = c) (coo_entries x)))"

text \<open>
  The median branch of \<open>Data_caiman.get_centroids\<close> for one ROI:
  \<open>(wt != 0) * np.arange(len)\<close> holds index \<open>k\<close> where the weight is not zero and 0
  elsewhere; every 0 of that array is then replaced by \<open>nan\<close>, and \<open>np.nanmedian\<close> is taken.
\<close>

definition median_index :: "(nat \<Rightarrow> weight) \<Rightarrow> nat \<Rightarrow> rat option" where
  "median_index wt len =
     (let marked = map (\<lambda>k. if wt k \<noteq> 0 then (of_nat k :: rat) else 0) [0..<len]
      in np_nanmedian (filter (\<lambda>x. x \<noteq> 0) marked))"

text \<open>
  \<open>Data_caiman.get_centroids(sf, FOV_height, FOV_width)\<close> with \<open>self.centroid_method\<close>
  as an argument. The result is the pair of rows of the \<open>(2, n_roi)\<close> array.

  The centroid method computes \<open>(wt * np.arange(len)).sum(1) / wt.sum(1)\<close> for every ROI
  in floating-point arithmetic, and the rounding of that quotient can decide the integer
  it is rounded to. The quotient is the parameter \<open>weighted_mean\<close>, a function of the
  weights \<open>wt\<close> of one ROI along an axis and of the length of the axis.
\<close>

definition get_centroids_caiman ::
  "((nat \<Rightarrow> weight) \<Rightarrow> nat \<Rightarrow> rat option) \<Rightarrow> string \<Rightarrow> csr_matrix \<Rightarrow> nat \<Rightarrow> nat
     \<Rightarrow> py_error + (int option list \<times> int option list) option" where
  "get_centroids_caiman weighted_mean centroid_method sf FOV_height FOV_width =
     (case coo_reshape3 (coo_of_csr sf) (shape0 sf, FOV_height, FOV_width) of
        Inl e \<Rightarrow> Inl e
      | Inr sf_rs \<Rightarrow>
          let n = fst (coo_shape sf_rs);
              w_wt = sum_axis2 sf_rs;
              h_wt = sum_axis1 sf_rs
          in if centroid_method = ''centroid'' then
               Inr (Some (round_astype_int64 (map (\<lambda>i. weighted_mean (w_wt i) FOV_height) [0..<n]),
                          round_astype_int64 (map (\<lambda>i. weighted_mean (h_wt i) FOV_width) [0..<n])))
             else if centroid_method = ''median'' then
               Inr (Some (round_astype_int64 (map (\<lambda>i. median_index (w_wt i) FOV_height) [0..<n]),
                          round_astype_int64 (map (\<lambda>i. median_index (h_wt i) FOV_width) [0..<n])))
             else Inl ValueError)"

text \<open>
  \<open>Data_suite2p.get_centroids\<close>: the same, but its median branch is \<open>return None\<close>.
\<close>

definition get_centroids_suite2p ::
  "((nat \<Rightarrow> weight) \<Rightarrow> nat \<Rightarrow> rat option) \<Rightarrow> string \<Rightarrow> csr_matrix \<Rightarrow> nat \<Rightarrow> nat
     \<Rightarrow> py_error + (int option list \<times> int option list) option" where
  "get_centroids_suite2p weighted_mean centroid_method sf FOV_height FOV_width =
     (case coo_reshape3 (coo_of_csr sf) (shape0 sf, FOV_height, FOV_width) of
        Inl e \<Rightarrow> Inl e
      | Inr sf_rs \<Rightarrow>
          let n = fst (coo_shape sf_rs);
              w_wt = sum_axis2 sf_rs;
              h_wt = sum_axis1 sf_rs
          in if centroid_method = ''centroid'' then
               Inr (Some (round_astype_int64 (map (\<lambda>i. weighted_mean (w_wt i) FOV_height) [0..<n]),
                          round_astype_int64 (map (\<lambda>i. weighted_mean (h_wt i) FOV_width) [0..<n])))
             else if centroid_method = ''median'' then Inr None
             else Inl ValueError)"

section \<open>Suite2p: pixel shifts, footprints and labels\<close>

text \<open>
  The fields of an ops file and of one ROI of a stat file that the module reads, as decoded
  integers and weights.
\<close>

record ops =
  yrange :: "int list"
  xrange :: "int list"

record roi_stat =
  ypix :: "int list"
  xpix :: "int list"
  lam :: "weight list"

type_synonym uint64 = "64 word"

text \<open>A list comprehension whose elements can raise: the first exception ends it.\<close>

fun sequence_sum :: "('e + 'a) list \<Rightarrow> 'e + 'a list" where
  "sequence_sum [] = Inr []"
| "sequence_sum (Inl e # rs) = Inl e"
| "sequence_sum (Inr x # rs) = (case sequence_sum rs of Inl e \<Rightarrow> Inl e | Inr xs \<Rightarrow> Inr (x # xs))"

text \<open>
  \<open>np.array([op['yrange'].min()-1, op['xrange'].min()-1], dtype=np.uint64)\<close>: the two
  differences are converted to unsigned 64-bit integers, which wraps a negative value
  around. \<open>min\<close> of an empty array raises \<open>ValueError\<close>.
\<close>

definition ops_shift :: "ops \<Rightarrow> py_error + uint64 \<times> uint64" where
  "ops_shift op =
     (if yrange op = [] \<or> xrange op = [] then Inl ValueError
      else Inr (word_of_int (Min (set (yrange op)) - 1), word_of_int (Min (set (xrange op)) - 1)))"

text \<open>
  \<open>self.shifts\<close> as \<open>Data_suite2p.__init__\<close> sets it; \<open>ops_files\<close> is \<open>None\<close> when
  \<open>paths_opsFiles\<close> is.
\<close>

definition init_shifts :: "string \<Rightarrow> ops list option \<Rightarrow> nat \<Rightarrow> py_error + (uint64 \<times> uint64) list" where
  "init_shifts new_or_old_suite2p ops_files n_statFiles =
     (case ops_files of
        Some opss \<Rightarrow>
          if new_or_old_suite2p = ''old'' then sequence_sum (map ops_shift opss)
          else Inr (replicate n_statFiles (0, 0))
      | None \<Rightarrow> Inr (replicate n_statFiles (0, 0)))"

text \<open>
  \<open>ypix = np.array(roi['ypix'], dtype=np.uint64) + shifts[0]\<close> and the same for \<open>xpix\<close>:
  additions of unsigned 64-bit integers.
\<close>

definition shifted_pix :: "uint64 \<times> uint64 \<Rightarrow> roi_stat \<Rightarrow> uint64 list \<times> uint64 list" where
  "shifted_pix shifts roi =
     (map (\<lambda>y. word_of_int y + fst shifts) (ypix roi),
      map (\<lambda>x. word_of_int x + snd shifts) (xpix roi))"

text \<open>
  \<open>scipy.sparse.csr_array((data, (row, col)), shape)\<close> converts the index arrays to the
  index type of the shape before it checks them: \<open>np.int32\<close> when neither side of the
  shape exceeds \<open>2^31 - 1\<close>, \<open>np.int64\<close> otherwise. The conversion of an unsigned 64-bit
  integer keeps its low 32 (or 64) bits, read as a signed integer.
\<close>

definition index_cast :: "nat \<times> nat \<Rightarrow> uint64 \<Rightarrow> int" where
  "index_cast shape v =
     (if max (fst shape) (snd shape) \<le> 2147483647 then signed_take_bit 31 (uint v)
      else signed_take_bit 63 (uint v))"

text \<open>
  One round of the loop of \<open>_helper_populate_sf\<close>. The normalisation of the weights
  (\<open>lam / lam.sum()\<close>, scaled and converted for an integer dtype) is floating-point
  arithmetic and is taken as the parameter \<open>normalise\<close>.
  \<open>scipy.sparse.csr_array((lam, (ypix, xpix)), shape)\<close> raises \<open>ValueError\<close> for arrays of
  different lengths and for a converted index that is negative or not below its side of
  the frame; it stores the entries sorted by row and column, with the weights of a
  repeated pixel added up. \<open>.reshape(1, -1)\<close> puts pixel \<open>(y, x)\<close> at column
  \<open>y * width + x\<close>, which keeps that order.
\<close>

definition populate_roi ::
  "(weight list \<Rightarrow> weight list) \<Rightarrow> nat \<times> nat \<Rightarrow> uint64 \<times> uint64 \<Rightarrow> roi_stat
     \<Rightarrow> py_error + (nat \<times> weight) list" where
  "populate_roi normalise frame_height_width shifts roi =
     (let lam' = normalise (lam roi);
          (ypix', xpix') = shifted_pix shifts roi;
          row = map (index_cast frame_height_width) ypix';
          col = map (index_cast frame_height_width) xpix'
      in if length row \<noteq> length lam' \<or> length col \<noteq> length lam' then Inl ValueError
         else if \<not> (list_all (\<lambda>r. 0 \<le> r \<and> r < int (fst frame_height_width)) row
                    \<and> list_all (\<lambda>c. 0 \<le> c \<and> c < int (snd frame_height_width)) col)
         then Inl ValueError
         else Inr (sum_duplicates
                     (map (\<lambda>(l, r, c). (nat r * snd frame_height_width + nat c, l))
                          (zip lam' (zip row col)))))"

text \<open>
  \<open>_helper_populate_sf\<close>: \<open>scipy.sparse.vstack\<close> of the rows; it raises \<open>ValueError\<close> for
  an empty list.
\<close>

definition helper_populate_sf ::
  "(weight list \<Rightarrow> weight list) \<Rightarrow> nat \<times> nat \<Rightarrow> roi_stat list \<Rightarrow> uint64 \<times> uint64
     \<Rightarrow> py_error + csr_matrix" where
  "helper_populate_sf normalise frame_height_width stat shifts =
     (case sequence_sum (map (populate_roi normalise frame_height_width shifts) stat) of
        Inl e \<Rightarrow> Inl e
      | Inr rois_to_stack \<Rightarrow>
          if rois_to_stack = [] then Inl ValueError
          else Inr \<lparr>n_cols = fst frame_height_width * snd frame_height_width,
                    csr_rows = rois_to_stack\<rparr>)"

text \<open>
  An attribute that holds \<open>None\<close>, a Python list or a numpy array:
  \<open>type(x) is np.ndarray\<close> is true of the last only.
\<close>

datatype 'a py_attr = PyNone | PyList "'a list" | NdArray "'a list"

text \<open>
  \<open>import_statFiles\<close> sets \<open>self.statFiles\<close> to a Python list with one loaded array per
  session.
\<close>

definition import_statFiles :: "roi_stat list list \<Rightarrow> roi_stat list py_attr" where
  "import_statFiles loaded = PyList loaded"

text \<open>
  \<open>Data_suite2p.import_ROI_labels\<close>. \<open>helpers.squeeze_integers\<close> is not among the source
  files and is taken as a parameter. \<open>np.concatenate\<close> raises \<open>ValueError\<close> for an empty
  list. The assertion on the numbers of ROIs and labels is guarded by
  \<open>type(self.statFiles) is np.ndarray\<close>.
\<close>

definition import_ROI_labels_suite2p ::
  "(int list \<Rightarrow> int list) \<Rightarrow> roi_stat list py_attr \<Rightarrow> int list list \<Rightarrow> py_error + int list" where
  "import_ROI_labels_suite2p squeeze_integers statFiles raw_labels =
     (if raw_labels = [] then Inl ValueError
      else let labelFiles = squeeze_integers (concat raw_labels)
           in case statFiles of
                NdArray a \<Rightarrow>
                  if length a = length labelFiles then Inr labelFiles else Inl AssertionError
              | _ \<Rightarrow> Inr labelFiles)"

text \<open>
  \<open>Data_caiman.import_ROI_labels\<close> has the same text, but no method of \<open>Data_caiman\<close>
  assigns \<open>self.statFiles\<close>: reading it raises \<open>AttributeError\<close>.
\<close>

definition import_ROI_labels_caiman ::
  "(int list \<Rightarrow> int list) \<Rightarrow> int list list \<Rightarrow> py_error + int list" where
  "import_ROI_labels_caiman squeeze_integers raw_labels =
     (if raw_labels = [] then Inl ValueError
      else let labelFiles = squeeze_integers (concat raw_labels)
           in Inl AttributeError)"

section \<open>CaImAn: footprints in row-major order\<close>

text \<open>\<open>.transpose((0,2,1))\<close> of a three-dimensional COO array.\<close>

definition coo_transpose_021 :: "coo3 \<Rightarrow> coo3" where
  "coo_transpose_021 x =
     (case coo_shape x of (a, b, c) \<Rightarrow>
        \<lparr>coo_shape = (a, c, b),
         coo_entries = map (\<lambda>((i, r, c), v). ((i, c, r), v)) (coo_entries x)\<rparr>)"

text \<open>
  \<open>.reshape((n, m))\<close> of a three-dimensional COO array: \<open>ValueError\<close> when the sizes
  differ; every entry keeps its row-major linear index.
\<close>

definition coo_reshape2 :: "coo3 \<Rightarrow> nat \<times> nat \<Rightarrow> py_error + coo2" where
  "coo_reshape2 x new_shape =
     (case (coo_shape x, new_shape) of ((a, b, c), (n, m)) \<Rightarrow>
        if a * b * c \<noteq> n * m then Inl ValueError
        else Inr \<lparr>coo2_shape = (n, m),
                  coo2_entries =
                    map (\<lambda>((i, r, c'), v).
                           let lin = (i * b + r) * c + c'
                           in ((lin div m, lin mod m), v))
                        (coo_entries x)\<rparr>)"

text \<open>\<open>.tocsr()\<close>: the entries of every row, by ascending column.\<close>

definition coo_tocsr :: "coo2 \<Rightarrow> csr_matrix" where
  "coo_tocsr x =
     (case coo2_shape x of (n, m) \<Rightarrow>
        \<lparr>n_cols = m,
         csr_rows = map (\<lambda>i. sort_key fst
                                (map (\<lambda>((i', k), v). (k, v))
                                     (filter (\<lambda>((i', k), v). i' = i) (coo2_entries x))))
                        [0..<n]\<rparr>)"

text \<open>
  \<open>scipy.sparse.vstack([sf_included, sf_discarded])\<close>: \<open>ValueError\<close> when the numbers of
  columns differ.
\<close>

definition scipy_vstack2 :: "csr_matrix \<Rightarrow> csr_matrix \<Rightarrow> py_error + csr_matrix" where
  "scipy_vstack2 a b =
     (if n_cols a \<noteq> n_cols b then Inl ValueError
      else Inr \<lparr>n_cols = n_cols a, csr_rows = csr_rows a @ csr_rows b\<rparr>)"

text \<open>
  \<open>sparse.COO(sf_F).reshape((sf_F.shape[0], FOV_width, FOV_height)).transpose((0,2,1))
  .reshape((sf_F.shape[0], FOV_width*FOV_height)).tocsr()\<close>
\<close>

definition F_to_C :: "csr_matrix \<Rightarrow> nat \<Rightarrow> nat \<Rightarrow> py_error + csr_matrix" where
  "F_to_C sf_F FOV_height FOV_width =
     (case coo_reshape3 (coo_of_csr sf_F) (shape0 sf_F, FOV_width, FOV_height) of
        Inl e \<Rightarrow> Inl e
      | Inr x \<Rightarrow>
          (case coo_reshape2 (coo_transpose_021 x) (shape0 sf_F, FOV_width * FOV_height) of
             Inl e \<Rightarrow> Inl e
           | Inr y \<Rightarrow> Inr (coo_tocsr y)))"

text \<open>
  \<open>_import_spatialFootprints\<close> of \<open>Data_caiman.import_caimanResults\<close>. Its arguments are
  the fields it reads from the results file: \<open>estimates.dims\<close> and the matrices
  \<open>estimates.A\<close> and \<open>estimates.discarded_components.A\<close>, each read as a
  \<open>csr_matrix\<close> of the reversed shape \<open>(n_components, H * W)\<close>.
\<close>

definition import_spatialFootprints_caiman ::
  "nat \<times> nat \<Rightarrow> csr_matrix \<Rightarrow> csr_matrix \<Rightarrow> bool \<Rightarrow> py_error + csr_matrix" where
  "import_spatialFootprints_caiman dims sf_included sf_discarded include_discarded =
     (case dims of (FOV_height, FOV_width) \<Rightarrow>
        (case (if include_discarded then scipy_vstack2 sf_included sf_discarded
               else Inr sf_included) of
           Inl e \<Rightarrow> Inl e
         | Inr sf_F \<Rightarrow> F_to_C sf_F FOV_height FOV_width))"

text \<open>
  Vocabulary for stating the round trip: an image \<open>img r c\<close> of \<open>H\<close> rows and \<open>W\<close>
  columns flattened in column-major (Fortran) and in row-major (C) order, the sparse
  matrix that stores the non-zero values of dense rows, and the dense view of a sparse
  matrix.
\<close>

definition flatten_F :: "nat \<Rightarrow> nat \<Rightarrow> (nat \<Rightarrow> nat \<Rightarrow> weight) \<Rightarrow> weight list" where
  "flatten_F H W img = concat (map (\<lambda>c. map (\<lambda>r. img r c) [0..<H]) [0..<W])"

definition flatten_C :: "nat \<Rightarrow> nat \<Rightarrow> (nat \<Rightarrow> nat \<Rightarrow> weight) \<Rightarrow> weight list" where
  "flatten_C H W img = concat (map (\<lambda>r. map (\<lambda>c. img r c) [0..<W]) [0..<H])"

definition csr_of_dense :: "nat \<Rightarrow> weight list list \<Rightarrow> csr_matrix" where
  "csr_of_dense m rows =
     \<lparr>n_cols = m, csr_rows = map (\<lambda>row. filter (\<lambda>(k, v). v \<noteq> 0) (enumerate 0 row)) rows\<rparr>"

definition csr_todense :: "csr_matrix \<Rightarrow> weight list list" where
  "csr_todense sf = map (\<lambda>i. map (\<lambda>k. csr_at sf i k) [0..<n_cols sf]) [0..<shape0 sf]"

section \<open>Properties of the session-membership matrix\<close>

lemma len_blocks:
  "length (concat (map (\<lambda>(i, s). replicate (f s) (g i)) (enumerate k xs))) = sum_list (map f xs)"
  by (induction xs arbitrary: k) auto

lemma nth_blocks:
  "i < length xs \<Longrightarrow> j < f (xs ! i) \<Longrightarrow>
   concat (map (\<lambda>(i, s). replicate (f s) (g i)) (enumerate k xs)) !
     (sum_list (map f (take i xs)) + j) = g (k + i)"
proof (induction xs arbitrary: k i)
  case Nil
  then show ?case by simp
next
  case (Cons x xs)
  show ?case
  proof (cases i)
    case 0
    with Cons.prems show ?thesis by (simp add: nth_append)
  next
    case (Suc i')
    with Cons.prems have "i' < length xs" "j < f (xs ! i')" by auto
    from Cons.IH[OF this, of "Suc k"] Suc show ?thesis
      by (simp add: nth_append add.assoc)
  qed
qed

lemma set_blocks:
  "r \<in> set (concat (map (\<lambda>(i, s). replicate (f s) (g i)) (enumerate k xs))) \<Longrightarrow>
   \<exists>i. k \<le> i \<and> i < k + length xs \<and> r = g i"
  by (auto simp: in_set_enumerate_eq split: if_splits)

lemma count_blocks_sum:
  "length (filter P (concat (map (\<lambda>(i, s). replicate (f s) (g i)) (enumerate k xs)))) =
   sum_list (map (\<lambda>(i, s). if P (g i) then f s else 0) (enumerate k xs))"
  by (induction xs arbitrary: k) auto

lemma onehot_sum:
  "(\<And>i. P (g i) \<longleftrightarrow> i = c) \<Longrightarrow>
   sum_list (map (\<lambda>(i, s). if P (g i) then f s else 0) (enumerate k xs)) =
   (if k \<le> c \<and> c < k + length xs then f (xs ! (c - k)) else (0::nat))"
proof (induction xs arbitrary: k)
  case Nil
  then show ?case by simp
next
  case (Cons x xs)
  from Cons.IH[OF Cons.prems, of "Suc k"] Cons.prems show ?case
    by (auto simp: Suc_diff_le nth_Cons')
qed

lemma idx2bool_count: "length (filter (\<lambda>b. b) (idx2bool i n)) = (if i < n then 1 else 0)"
  by (induction n) (auto simp: idx2bool_def)

lemma idx2bool_nth: "k < n \<Longrightarrow> idx2bool i n ! k = (k = i)"
  by (simp add: idx2bool_def)

lemma sessionID_concat_blocks:
  assumes "sfs \<noteq> []" and "list_all (\<lambda>s. 0 < shape0 s) sfs"
  shows "sessionID_concat sfs =
    Inr (concat (map (\<lambda>(i, s). replicate (shape0 s) (idx2bool i (length sfs))) (enumerate 0 sfs)))"
proof -
  let ?n = "length sfs"
  let ?blks = "map (\<lambda>(i, s). replicate (shape0 s) (idx2bool i ?n)) (enumerate 0 sfs)"
  have pos: "\<And>i s. (i, s) \<in> set (enumerate 0 sfs) \<Longrightarrow> 0 < shape0 s"
    using assms(2) by (auto simp: list_all_iff in_set_enumerate_eq)
  have ne: "\<And>b. b \<in> set ?blks \<Longrightarrow> b \<noteq> [] \<and> length (hd b) = ?n"
  proof -
    fix b assume "b \<in> set ?blks"
    then obtain i s where mem: "(i, s) \<in> set (enumerate 0 sfs)"
      and b: "b = replicate (shape0 s) (idx2bool i ?n)" by auto
    from pos[OF mem] obtain m where "shape0 s = Suc m" by (cases "shape0 s") auto
    with b show "b \<noteq> [] \<and> length (hd b) = ?n" by (simp add: idx2bool_def)
  qed
  have same: "map atleast_2d ?blks = ?blks"
    using ne by (intro map_idI) (simp add: atleast_2d_def)
  have "length ?blks = length sfs" by simp
  then have "?blks \<noteq> []" using assms(1) by (metis length_0_conv)
  moreover have "list_all (\<lambda>b. length (hd b) = length (hd (hd ?blks))) ?blks"
  proof -
    have "hd ?blks \<in> set ?blks" using \<open>?blks \<noteq> []\<close> by (rule hd_in_set)
    then have "length (hd (hd ?blks)) = ?n" using ne by blast
    then show ?thesis using ne by (simp add: list_all_iff)
  qed
  ultimately show ?thesis
    unfolding sessionID_concat_def np_vstack_def Let_def same by simp
qed

text \<open>
  Claim C6, as stated for every sequence of footprint matrices, fails where a session has
  no ROI: its block is an empty array, which \<open>np.vstack\<close> cannot stack with the
  two-column blocks of the other sessions.
\<close>

theorem sessionID_concat_empty_session_raises:
  "sessionID_concat
     [\<lparr>n_cols = 4, csr_rows = []\<rparr>, \<lparr>n_cols = 4, csr_rows = [[(0, 1)], [(3, 1)]]\<rparr>]
   = Inl ValueError"
  by (simp add: sessionID_concat_def np_vstack_def atleast_2d_def shape0_def idx2bool_def
      enumerate_eq_zip upt_rec)

text \<open>
  Claim C6 (amended): for every non-empty sequence of footprint matrices in which each
  session has at least one ROI, the session-membership matrix is built without error; it
  has one row per ROI of all sessions and one boolean column per session; every row has
  exactly one true entry; the row of the \<open>j\<close>-th ROI of session \<open>i\<close>, at position
  \<open>n_roi[0] + ... + n_roi[i-1] + j\<close> in concatenation order, is true exactly at column
  \<open>i\<close>; and column \<open>i\<close> holds \<open>n_roi[i]\<close> true entries.
\<close>

theorem sessionID_concat_membership:
  assumes "sfs \<noteq> []" and "list_all (\<lambda>s. 0 < shape0 s) sfs"
  shows "\<exists>M. sessionID_concat sfs = Inr M
    \<and> length M = sum_list (map shape0 sfs)
    \<and> (\<forall>row \<in> set M. length row = length sfs \<and> length (filter (\<lambda>b. b) row) = 1)
    \<and> (\<forall>i < length sfs. \<forall>j < shape0 (sfs ! i). \<forall>k < length sfs.
          (M ! (sum_list (map shape0 (take i sfs)) + j)) ! k = (k = i))
    \<and> (\<forall>i < length sfs. length (filter (\<lambda>row. row ! i) M) = shape0 (sfs ! i))"
proof -
  let ?n = "length sfs"
  let ?M = "concat (map (\<lambda>(i, s). replicate (shape0 s) (idx2bool i ?n)) (enumerate 0 sfs))"
  have eq: "sessionID_concat sfs = Inr ?M"
    using assms by (rule sessionID_concat_blocks)
  have len: "length ?M = sum_list (map shape0 sfs)"
    by (rule len_blocks)
  have rows: "\<forall>row \<in> set ?M. length row = ?n \<and> length (filter (\<lambda>b. b) row) = 1"
  proof
    fix row assume "row \<in> set ?M"
    from set_blocks[OF this] obtain i where "i < ?n" "row = idx2bool i ?n" by auto
    then show "length row = ?n \<and> length (filter (\<lambda>b. b) row) = 1"
      by (simp add: idx2bool_count) (simp add: idx2bool_def)
  qed
  have pos: "\<forall>i < ?n. \<forall>j < shape0 (sfs ! i). \<forall>k < ?n.
      (?M ! (sum_list (map shape0 (take i sfs)) + j)) ! k = (k = i)"
  proof (intro allI impI)
    fix i j k assume "i < ?n" "j < shape0 (sfs ! i)" "k < ?n"
    from nth_blocks[of i sfs j shape0 "\<lambda>i. idx2bool i ?n" 0] this
    show "(?M ! (sum_list (map shape0 (take i sfs)) + j)) ! k = (k = i)"
      by (simp add: idx2bool_nth)
  qed
  have cols: "\<forall>i < ?n. length (filter (\<lambda>row. row ! i) ?M) = shape0 (sfs ! i)"
  proof (intro allI impI)
    fix i assume i: "i < ?n"
    have "\<And>k. (idx2bool k ?n ! i) \<longleftrightarrow> k = i"
      using i by (auto simp: idx2bool_nth)
    from onehot_sum[of "\<lambda>row. row ! i" "\<lambda>k. idx2bool k ?n" i shape0 0 sfs, OF this] i
    show "length (filter (\<lambda>row. row ! i) ?M) = shape0 (sfs ! i)"
      by (simp add: count_blocks_sum)
  qed
  from eq len rows pos cols show ?thesis by blast
qed

text \<open>
  The amended claim C6 at two sessions with three and two ROIs: the hypotheses hold and
  the matrix has five rows.
\<close>

theorem sessionID_concat_membership_witness:
  "[\<lparr>n_cols = 4, csr_rows = [[(0, 1)], [(1, 1)], [(2, 1)]]\<rparr>,
    \<lparr>n_cols = 4, csr_rows = [[(0, 1)], [(3, 1)]]\<rparr>] \<noteq> []
   \<and> list_all (\<lambda>s. 0 < shape0 s)
       [\<lparr>n_cols = 4, csr_rows = [[(0, 1)], [(1, 1)], [(2, 1)]]\<rparr>,
        \<lparr>n_cols = 4, csr_rows = [[(0, 1)], [(3, 1)]]\<rparr>]
   \<and> (\<exists>M. sessionID_concat
         [\<lparr>n_cols = 4, csr_rows = [[(0, 1)], [(1, 1)], [(2, 1)]]\<rparr>,
          \<lparr>n_cols = 4, csr_rows = [[(0, 1)], [(3, 1)]]\<rparr>] = Inr M
        \<and> length M = 5
        \<and> length (filter (\<lambda>row. row ! 0) M) = 3
        \<and> length (filter (\<lambda>row. row ! 1) M) = 2)"
proof -
  let ?sfs = "[\<lparr>n_cols = 4, csr_rows = [[(0, 1)], [(1, 1)], [(2, 1)]]\<rparr>,
    \<lparr>n_cols = 4, csr_rows = [[(0::nat, 1::weight)], [(3, 1)]]\<rparr>]"
  have h1: "?sfs \<noteq> []" by simp
  have h2: "list_all (\<lambda>s. 0 < shape0 s) ?sfs" by (simp add: shape0_def)
  from sessionID_concat_membership[OF h1 h2] obtain M where
    M: "sessionID_concat ?sfs = Inr M" "length M = sum_list (map shape0 ?sfs)"
    "\<forall>i < length ?sfs. length (filter (\<lambda>row. row ! i) M) = shape0 (?sfs ! i)"
    by blast
  from M(3) have "length (filter (\<lambda>row. row ! 0) M) = 3" "length (filter (\<lambda>row. row ! 1) M) = 2"
    by (simp_all add: shape0_def)
  with M(1,2) h1 h2 show ?thesis by (simp add: shape0_def)
qed

section \<open>Canonical format\<close>

lemma sum_duplicates_keys: "map fst (sum_duplicates es) = sort (remdups (map fst es))"
  by (simp add: sum_duplicates_def comp_def)

lemma set_sum_duplicates_keys: "fst ` set (sum_duplicates es) = fst ` set es"
proof -
  have "set (map fst (sum_duplicates es)) = set (map fst es)"
    unfolding sum_duplicates_keys by simp
  then show ?thesis by simp
qed

lemma sorted_sum_duplicates: "sorted (map fst (sum_duplicates es))"
  unfolding sum_duplicates_keys by simp

lemma distinct_sum_duplicates: "distinct (map fst (sum_duplicates es))"
  unfolding sum_duplicates_keys by simp

lemma sum_duplicates_Nil_iff: "sum_duplicates es = [] \<longleftrightarrow> es = []"
proof -
  have "sum_duplicates es = [] \<longleftrightarrow> set (map fst (sum_duplicates es)) = {}" by simp
  also have "\<dots> \<longleftrightarrow> set (map fst es) = {}" unfolding sum_duplicates_keys by simp
  also have "\<dots> \<longleftrightarrow> es = []" by simp
  finally show ?thesis .
qed

lemma filter_key_map:
  "distinct ks \<Longrightarrow>
   filter (\<lambda>e. fst e = k) (map (\<lambda>k. (k, S k)) ks) = (if k \<in> set ks then [(k, S k)] else [])"
  by (induction ks) auto

lemma sum_duplicates_filter:
  "filter (\<lambda>e. fst e = k) (sum_duplicates es) =
     (if k \<in> fst ` set es then [(k, sum_list (map snd (filter (\<lambda>e. fst e = k) es)))] else [])"
proof -
  have "distinct (sort (remdups (map fst es)))" by simp
  from filter_key_map[OF this, of k "\<lambda>k. sum_list (map snd (filter (\<lambda>e. fst e = k) es))"]
  show ?thesis by (simp add: sum_duplicates_def)
qed

text \<open>Bringing a row into canonical format leaves the value at every index as it is.\<close>

lemma sum_duplicates_at:
  "sum_list (map snd (filter (\<lambda>e. fst e = k) (sum_duplicates es)))
   = sum_list (map snd (filter (\<lambda>e. fst e = k) es))"
proof (cases "k \<in> fst ` set es")
  case True
  then show ?thesis by (simp add: sum_duplicates_filter)
next
  case False
  then have "filter (\<lambda>e. fst e = k) es = []"
    by (auto simp: filter_empty_conv)
  with False show ?thesis by (simp add: sum_duplicates_filter)
qed

lemma sum_list_pos_weights:
  fixes xs :: "weight list"
  shows "xs \<noteq> [] \<Longrightarrow> \<forall>x \<in> set xs. 0 < x \<Longrightarrow> 0 < sum_list xs"
proof (induction xs)
  case Nil
  then show ?case by simp
next
  case (Cons x xs)
  show ?case
  proof (cases "xs = []")
    case True
    with Cons.prems show ?thesis by simp
  next
    case False
    with Cons have "0 < sum_list xs" "0 < x" by simp_all
    then show ?thesis by simp
  qed
qed

lemma sum_duplicates_pos:
  assumes "list_all (\<lambda>e. 0 < snd e) es"
  shows "list_all (\<lambda>e. 0 < snd e) (sum_duplicates es)"
proof -
  have "0 < sum_list (map snd (filter (\<lambda>e. fst e = k) es))" if "k \<in> fst ` set es" for k
  proof (rule sum_list_pos_weights)
    from that show "map snd (filter (\<lambda>e. fst e = k) es) \<noteq> []"
      by (auto simp: filter_empty_conv)
    from assms show "\<forall>x \<in> set (map snd (filter (\<lambda>e. fst e = k) es)). 0 < x"
      by (auto simp: list_all_iff)
  qed
  then show ?thesis by (auto simp: sum_duplicates_def list_all_iff)
qed

lemma sum_duplicates_bound:
  assumes "list_all (\<lambda>(k, v). k < n) es"
  shows "list_all (\<lambda>(k, v). k < n) (sum_duplicates es)"
  using assms by (auto simp: sum_duplicates_def list_all_iff)

lemma enumerate_map_rows:
  "map (\<lambda>(i, row). F i (g row)) (enumerate m rows) = map (\<lambda>(i, row). F i row) (enumerate m (map g rows))"
  by (induction rows arbitrary: m) auto

section \<open>The grouping assertion of ROI-centred image extraction\<close>

lemma div_add_less:
  fixes i k m :: nat
  assumes "k < m"
  shows "(i * m + k) div m = i"
proof -
  from assms have "m \<noteq> 0" by auto
  then have "(i * m + k) div m = i + k div m" by (rule div_mult_self3)
  with assms show ?thesis by simp
qed

lemma unravel3:
  fixes i k H W :: nat
  assumes "k < H * W"
  shows "(i * (H * W) + k) div (H * W) = i"
    and "((i * (H * W) + k) div W) mod H = k div W"
    and "(i * (H * W) + k) mod W = k mod W"
proof -
  from assms have W: "W \<noteq> 0" by (cases W) auto
  show "(i * (H * W) + k) div (H * W) = i" using assms by (rule div_add_less)
  have "((i * H) * W + k) div W = i * H + k div W"
    using W by (rule div_mult_self3)
  then have "(i * (H * W) + k) div W = i * H + k div W" by (simp add: mult.assoc)
  moreover have "k div W < H" using assms
    by (simp add: less_mult_imp_div_less)
  ultimately show "((i * (H * W) + k) div W) mod H = k div W" by simp
  have "((i * H) * W + k) mod W = k mod W" by (rule mod_mult_self3)
  then show "(i * (H * W) + k) mod W = k mod W" by (simp add: mult.assoc)
qed

lemma coo_of_csr_rows:
  "coo_of_csr sf =
     \<lparr>coo2_shape = (shape0 sf, n_cols sf),
      coo2_entries = concat (map (\<lambda>(i, row). map (\<lambda>(k, v). ((i, k), v)) row)
                                 (enumerate 0 (map sum_duplicates (csr_rows sf))))\<rparr>"
  unfolding coo_of_csr_def
  using enumerate_map_rows[of "\<lambda>i row. map (\<lambda>(k, v). ((i, k), v)) row" sum_duplicates 0 "csr_rows sf"]
  by simp

text \<open>
  The reshaped array of a well-formed footprint matrix: the entries of the rows in
  canonical format, row after row, each at the pixel of its column.
\<close>

lemma reshape_footprints:
  assumes "n_cols sf = H * W" and "csr_valid sf"
  shows "coo_reshape3 (coo_of_csr sf) (shape0 sf, H, W) =
    Inr \<lparr>coo_shape = (shape0 sf, H, W),
         coo_entries = concat (map (\<lambda>(i, row). map (\<lambda>(k, v). ((i, k div W, k mod W), v)) row)
                                   (enumerate 0 (map sum_duplicates (csr_rows sf))))\<rparr>"
proof -
  let ?rows = "map sum_duplicates (csr_rows sf)"
  have "\<And>row. row \<in> set (csr_rows sf) \<Longrightarrow> list_all (\<lambda>(k, v). k < H * W) (sum_duplicates row)"
    using assms by (intro sum_duplicates_bound) (auto simp: csr_valid_def list_all_iff)
  then have "\<And>row. row \<in> set ?rows \<Longrightarrow> \<forall>e \<in> set row. fst e < H * W"
    by (fastforce simp: list_all_iff)
  moreover have "\<And>i row. (i, row) \<in> set (enumerate 0 ?rows) \<Longrightarrow> row \<in> set ?rows"
    by (metis in_set_zipE enumerate_eq_zip)
  ultimately have "\<And>i row k v. (i, row) \<in> set (enumerate 0 ?rows) \<Longrightarrow> (k, v) \<in> set row \<Longrightarrow> k < H * W"
    by (metis fst_conv)
  then show ?thesis
    using assms(1) unfolding coo_of_csr_rows
    by (auto simp: coo_reshape3_def map_concat unravel3 Let_def
        intro!: arg_cong[where f = concat])
qed

lemma coords0_footprints:
  "coords0 \<lparr>coo_shape = shp,
         coo_entries = concat (map (\<lambda>(i, row). map (\<lambda>(k, v). ((i, f k, g k), v)) row)
                                   (enumerate m rows))\<rparr>
   = concat (map (\<lambda>(i, row). replicate (length row) (int i)) (enumerate m rows))"
  by (auto simp: coords0_def map_concat map_replicate_const[symmetric] simp del: map_replicate_const
      intro!: arg_cong[where f = concat])

lemma np_diff_simps [simp]:
  "np_diff [] = []" "np_diff [a] = []" "np_diff (a # b # xs) = (b - a) # np_diff (b # xs)"
  by (simp_all add: np_diff_def)

lemma assert_bounds:
  "((of_int d :: rat) < 101 / 100 \<and> (of_int d :: rat) > - (1 / 100)) \<longleftrightarrow> (d = 0 \<or> d = 1)"
proof -
  have "(of_int d :: rat) < 101 / 100 \<longleftrightarrow> d \<le> 1"
  proof
    assume "(of_int d :: rat) < 101 / 100"
    then have "(of_int d :: rat) < of_int 2" by simp
    then have "d < 2" by (simp only: of_int_less_iff)
    then show "d \<le> 1" by simp
  next
    assume "d \<le> 1"
    then have "(of_int d :: rat) \<le> of_int 1" by (simp only: of_int_le_iff)
    then show "(of_int d :: rat) < 101 / 100" by simp
  qed
  moreover have "(of_int d :: rat) > - (1 / 100) \<longleftrightarrow> 0 \<le> d"
  proof
    assume "(of_int d :: rat) > - (1 / 100)"
    then have "(of_int d :: rat) > of_int (- 1)" by simp
    then have "d > - 1" by (simp only: of_int_less_iff)
    then show "0 \<le> d" by simp
  next
    assume "0 \<le> d"
    then have "(of_int 0 :: rat) \<le> of_int d" by (simp only: of_int_le_iff)
    then show "(of_int d :: rat) > - (1 / 100)" by simp
  qed
  ultimately show ?thesis by auto
qed


lemma assert_cond_iff:
  "(list_all (\<lambda>d. (of_int d :: rat) < 101 / 100) ds \<and> list_all (\<lambda>d. (of_int d :: rat) > - (1 / 100)) ds)
   \<longleftrightarrow> list_all (\<lambda>d. d = 0 \<or> d = 1) ds"
  using assert_bounds by (induction ds) auto

lemma steps_replicate_append:
  "list_all (\<lambda>d. d = 0 \<or> d = 1) (np_diff (replicate (Suc m) a @ ys)) \<longleftrightarrow>
   (ys = [] \<or> ((hd ys - a = 0 \<or> hd ys - a = 1) \<and> list_all (\<lambda>d. d = 0 \<or> d = 1) (np_diff ys)))"
proof (induction m)
  case 0
  show ?case by (cases ys) auto
next
  case (Suc m)
  then show ?case by simp
qed

lemma steps_blocks:
  assumes "list_all (\<lambda>row. row \<noteq> []) rows"
  shows "list_all (\<lambda>d. d = 0 \<or> d = 1)
           (np_diff (concat (map (\<lambda>(i, row). replicate (length row) (int i)) (enumerate k rows))))
         \<and> (rows \<noteq> [] \<longrightarrow>
              concat (map (\<lambda>(i, row). replicate (length row) (int i)) (enumerate k rows)) \<noteq> []
              \<and> hd (concat (map (\<lambda>(i, row). replicate (length row) (int i)) (enumerate k rows))) = int k)"
  using assms
proof (induction rows arbitrary: k)
  case Nil
  then show ?case by simp
next
  case (Cons row rows)
  from Cons.prems obtain m where m: "length row = Suc m" by (cases row) auto
  from Cons.prems have "list_all (\<lambda>row. row \<noteq> []) rows" by simp
  note IH = Cons.IH[OF this, of "Suc k"]
  show ?case
  proof (cases "rows = []")
    case True
    from steps_replicate_append[of m "int k" "[]"]
    have "list_all (\<lambda>d. d = 0 \<or> d = 1) (np_diff (replicate (Suc m) (int k)))" by simp
    with True m show ?thesis by (simp del: replicate_Suc)
  next
    case False
    with IH m show ?thesis
      by (simp add: steps_replicate_append del: replicate_Suc)
  qed
qed

lemma steps_interval:
  "list_all (\<lambda>d. d = 0 \<or> d = 1) (np_diff xs) \<Longrightarrow> xs \<noteq> [] \<Longrightarrow> set xs = {hd xs..last xs}"
proof (induction xs rule: induct_list012)
  case 1
  then show ?case by simp
next
  case (2 a)
  then show ?case by simp
next
  case (3 a b xs)
  then have IH: "set (b # xs) = {b..last (b # xs)}" and ab: "b = a \<or> b = a + 1" by auto
  from IH have "b \<le> last (b # xs)" by (metis atLeastAtMost_iff list.set_intros(1))
  with IH ab show ?case by auto
qed

lemma set_roi_blocks:
  "x \<in> set (concat (map (\<lambda>(i, row). replicate (length row) (int i)) (enumerate 0 rows)))
   \<longleftrightarrow> (\<exists>i < length rows. rows ! i \<noteq> [] \<and> x = int i)"
proof
  assume "x \<in> set (concat (map (\<lambda>(i, row). replicate (length row) (int i)) (enumerate 0 rows)))"
  then obtain i row where "(i, row) \<in> set (enumerate 0 rows)" "x \<in> set (replicate (length row) (int i))"
    by auto
  then show "\<exists>i < length rows. rows ! i \<noteq> [] \<and> x = int i"
    by (auto simp: in_set_enumerate_eq)
next
  assume "\<exists>i < length rows. rows ! i \<noteq> [] \<and> x = int i"
  then obtain i where i: "i < length rows" "rows ! i \<noteq> []" "x = int i" by blast
  then have "(i, rows ! i) \<in> set (enumerate 0 rows)" by (simp add: in_set_enumerate_eq)
  moreover have "x \<in> set (replicate (length (rows ! i)) (int i))" using i by simp
  ultimately show "x \<in> set (concat (map (\<lambda>(i, row). replicate (length row) (int i)) (enumerate 0 rows)))"
    by (simp only: set_concat set_map) blast
qed

lemma steps_gap:
  assumes "j < i" "i < k" "k < length rows" "rows ! j \<noteq> []" "rows ! i = []" "rows ! k \<noteq> []"
  shows "\<not> list_all (\<lambda>d. d = 0 \<or> d = 1)
           (np_diff (concat (map (\<lambda>(i, row). replicate (length row) (int i)) (enumerate 0 rows))))"
proof
  let ?xs = "concat (map (\<lambda>(i, row). replicate (length row) (int i)) (enumerate 0 rows))"
  assume ok: "list_all (\<lambda>d. d = 0 \<or> d = 1) (np_diff ?xs)"
  have j: "int j \<in> set ?xs" and k: "int k \<in> set ?xs"
    using assms unfolding set_roi_blocks by auto
  from j have "?xs \<noteq> []" by (metis empty_iff list.set(1))
  from steps_interval[OF ok this] have iv: "set ?xs = {hd ?xs..last ?xs}" .
  from j k iv have "hd ?xs \<le> int j" "int k \<le> last ?xs" by auto
  with assms(1,2) have "int i \<in> {hd ?xs..last ?xs}" by auto
  with iv have "int i \<in> set ?xs" by simp
  then have "rows ! i \<noteq> []" unfolding set_roi_blocks by auto
  with assms(5) show False by simp
qed

lemma centered_assertion_cases:
  assumes "coo_reshape3 (coo_of_csr sf) (shape0 sf, H, W) = Inr sf_rs"
  shows "(sf_to_centeredROIs H W sf centroids out = Inl AssertionError)
         \<longleftrightarrow> \<not> list_all (\<lambda>d. d = 0 \<or> d = 1) (np_diff (coords0 sf_rs))"
  unfolding sf_to_centeredROIs_def Let_def assms sum.case assert_cond_iff
  by simp


text \<open>
  Claim C9: for a well-formed footprint matrix of the session's FOV, the centring step
  ends in the assertion failure if and only if some difference of consecutive entries of
  the ROI-index coordinate array \<open>coords[0]\<close> is neither 0 nor 1. When every ROI's row
  holds at least one non-zero entry the assertion does not fire; when an ROI without
  entries lies between two ROIs that have entries, it does.
\<close>

theorem centering_assertion_iff:
  assumes "n_cols sf = FOV_height * FOV_width" and "csr_valid sf"
  shows "\<exists>sf_rs.
      coo_reshape3 (coo_of_csr sf) (shape0 sf, FOV_height, FOV_width) = Inr sf_rs
    \<and> ((sf_to_centeredROIs FOV_height FOV_width sf centroids out_height_width = Inl AssertionError)
          \<longleftrightarrow> (\<exists>d \<in> set (np_diff (coords0 sf_rs)). d \<noteq> 0 \<and> d \<noteq> 1))
    \<and> (list_all (\<lambda>row. list_ex (\<lambda>(k, v). v \<noteq> 0) row) (csr_rows sf)
          \<longrightarrow> sf_to_centeredROIs FOV_height FOV_width sf centroids out_height_width \<noteq> Inl AssertionError)
    \<and> ((\<exists>j i k. j < i \<and> i < k \<and> k < shape0 sf
            \<and> csr_rows sf ! j \<noteq> [] \<and> csr_rows sf ! i = [] \<and> csr_rows sf ! k \<noteq> [])
          \<longrightarrow> sf_to_centeredROIs FOV_height FOV_width sf centroids out_height_width = Inl AssertionError)"
proof -
  let ?rows = "map sum_duplicates (csr_rows sf)"
  let ?sf_rs = "\<lparr>coo_shape = (shape0 sf, FOV_height, FOV_width),
         coo_entries = concat (map (\<lambda>(i, row). map (\<lambda>(k, v). ((i, k div FOV_width, k mod FOV_width), v)) row)
                                   (enumerate 0 ?rows))\<rparr>"
  let ?xs = "concat (map (\<lambda>(i, row). replicate (length row) (int i)) (enumerate 0 ?rows))"
  have rs: "coo_reshape3 (coo_of_csr sf) (shape0 sf, FOV_height, FOV_width) = Inr ?sf_rs"
    using assms by (rule reshape_footprints)
  have c0: "coords0 ?sf_rs = ?xs" by (rule coords0_footprints)
  have fires: "(sf_to_centeredROIs FOV_height FOV_width sf centroids out_height_width = Inl AssertionError)
      \<longleftrightarrow> \<not> list_all (\<lambda>d. d = 0 \<or> d = 1) (np_diff ?xs)"
    using centered_assertion_cases[OF rs] c0 by simp
  have p1: "(sf_to_centeredROIs FOV_height FOV_width sf centroids out_height_width = Inl AssertionError)
      \<longleftrightarrow> (\<exists>d \<in> set (np_diff (coords0 ?sf_rs)). d \<noteq> 0 \<and> d \<noteq> 1)"
    unfolding fires c0 by (auto simp: list_all_iff)
  have p2: "list_all (\<lambda>row. list_ex (\<lambda>(k, v). v \<noteq> 0) row) (csr_rows sf)
      \<longrightarrow> sf_to_centeredROIs FOV_height FOV_width sf centroids out_height_width \<noteq> Inl AssertionError"
  proof
    assume "list_all (\<lambda>row. list_ex (\<lambda>(k, v). v \<noteq> 0) row) (csr_rows sf)"
    then have "list_all (\<lambda>row. row \<noteq> []) (csr_rows sf)"
      by (auto simp: list_all_iff list_ex_iff)
    then have "list_all (\<lambda>row. row \<noteq> []) ?rows"
      by (simp add: list_all_iff sum_duplicates_Nil_iff)
    from steps_blocks[OF this, of 0] fires
    show "sf_to_centeredROIs FOV_height FOV_width sf centroids out_height_width \<noteq> Inl AssertionError"
      by simp
  qed
  have p3: "(\<exists>j i k. j < i \<and> i < k \<and> k < shape0 sf
            \<and> csr_rows sf ! j \<noteq> [] \<and> csr_rows sf ! i = [] \<and> csr_rows sf ! k \<noteq> [])
          \<longrightarrow> sf_to_centeredROIs FOV_height FOV_width sf centroids out_height_width = Inl AssertionError"
  proof
    assume "\<exists>j i k. j < i \<and> i < k \<and> k < shape0 sf
            \<and> csr_rows sf ! j \<noteq> [] \<and> csr_rows sf ! i = [] \<and> csr_rows sf ! k \<noteq> []"
    then obtain j i k where "j < i" "i < k" "k < length ?rows"
      "?rows ! j \<noteq> []" "?rows ! i = []" "?rows ! k \<noteq> []"
      by (auto simp: shape0_def sum_duplicates_Nil_iff)
    from steps_gap[OF this] fires
    show "sf_to_centeredROIs FOV_height FOV_width sf centroids out_height_width = Inl AssertionError"
      by simp
  qed
  from rs p1 p2 p3 show ?thesis by blast
qed

text \<open>
  Claim C9 at three ROIs on a 3 x 4 FOV, each with a non-zero entry: the hypotheses hold
  and the assertion does not fire.
\<close>

theorem centering_assertion_iff_witness:
  "n_cols \<lparr>n_cols = 12, csr_rows = [[(0, 1), (5, 1 / 2)], [(7, 1)], [(11, 1)]]\<rparr> = 3 * 4
   \<and> csr_valid \<lparr>n_cols = 12, csr_rows = [[(0, 1), (5, 1 / 2)], [(7, 1)], [(11, 1)]]\<rparr>
   \<and> list_all (\<lambda>row. list_ex (\<lambda>(k, v). v \<noteq> 0) row) [[(0 :: nat, 1 :: weight), (5, 1 / 2)], [(7, 1)], [(11, 1)]]
   \<and> sf_to_centeredROIs 3 4 \<lparr>n_cols = 12, csr_rows = [[(0, 1), (5, 1 / 2)], [(7, 1)], [(11, 1)]]\<rparr>
        ([1, 1, 2], [1, 3, 3]) (36, 36) \<noteq> Inl AssertionError"
proof -
  let ?sf = "\<lparr>n_cols = 12, csr_rows = [[(0 :: nat, 1 :: weight), (5, 1 / 2)], [(7, 1)], [(11, 1)]]\<rparr>"
  have h1: "n_cols ?sf = 3 * 4" by simp
  have h2: "csr_valid ?sf" by (simp add: csr_valid_def)
  have h3: "list_all (\<lambda>row. list_ex (\<lambda>(k, v). v \<noteq> 0) row) (csr_rows ?sf)" by simp
  from centering_assertion_iff[OF h1 h2, of "([1, 1, 2], [1, 3, 3])" "(36, 36)"] h3
  have "sf_to_centeredROIs 3 4 ?sf ([1, 1, 2], [1, 3, 3]) (36, 36) \<noteq> Inl AssertionError"
    by blast
  with h1 h2 h3 show ?thesis by simp
qed

section \<open>ROI-centred images: the requested size\<close>

lemma todense_shape:
  "d_shape (todense (n, h, w) es) = (n, h, w)"
  "length (d_data (todense (n, h, w) es)) = n"
  "list_all (\<lambda>img. length img = h \<and> list_all (\<lambda>row. length row = w) img) (d_data (todense (n, h, w) es))"
  by (simp_all add: todense_def list_all_iff)

lemma todense_nth:
  "i < n \<Longrightarrow> r < h \<Longrightarrow> c < w \<Longrightarrow> d_data (todense (n, h, w) es) ! i ! r ! c = dense_at es i r c"
  by (simp add: todense_def)

lemma centered_one_pixel:
  "sf_to_centeredROIs 40 40 \<lparr>n_cols = 1600, csr_rows = [[(820, 1)]]\<rparr> ([20], [20]) (20, 20)
   = Inr (todense (1, 36, 36) [((0, 18, 18), 1)])"
  by (simp add: sf_to_centeredROIs_def coo_reshape3_def coo_of_csr_def sum_duplicates_def shape0_def coords0_def
      cumsum_def np_split_def ceil_half_def np_index_def np_index_valid_def enumerate_eq_zip upt_rec Let_def)

lemma centered_two_pixels:
  "sf_to_centeredROIs 40 40 \<lparr>n_cols = 1600, csr_rows = [[(340, 1 / 2), (1300, 1 / 2)]]\<rparr> ([20], [20]) (20, 20)
   = Inr (todense (1, 36, 36) [((0, 6, 18), 1 / 2), ((0, 30, 18), 1 / 2)])"
  by (simp add: sf_to_centeredROIs_def coo_reshape3_def coo_of_csr_def sum_duplicates_def shape0_def coords0_def
      cumsum_def np_split_def ceil_half_def np_index_def np_index_valid_def enumerate_eq_zip upt_rec Let_def)

text \<open>
  Claim C1 at a failing input: on a 40 x 40 FOV, one ROI with one pixel at (20, 20) and
  centroid (20, 20), requested patch size (20, 20). The result has shape (1, 36, 36), not
  (1, 20, 20): the function overwrites its size argument with (36, 36).
\<close>

theorem centered_shape_ignores_requested_size:
  "\<exists>d. sf_to_centeredROIs 40 40 \<lparr>n_cols = 1600, csr_rows = [[(820, 1)]]\<rparr> ([20], [20]) (20, 20) = Inr d
     \<and> d_shape d = (1, 36, 36)
     \<and> length (d_data d) = 1
     \<and> list_all (\<lambda>img. length img = 36 \<and> list_all (\<lambda>row. length row = 36) img) (d_data d)"
  unfolding centered_one_pixel by (simp add: todense_shape)

text \<open>
  Claim C4 at a failing input: on a 40 x 40 FOV, one ROI with pixels at (8, 20) and
  (32, 20), centroid (20, 20), requested patch size (20, 20). With the requested size the
  translated rows are 8 - 20 + 10 = -2 and 32 - 20 + 10 = 22, both outside the window
  [0, 20), so both entries are to be discarded. The function translates by 18 and keeps
  the window [0, 36): both entries are in the output, at (6, 18) and (30, 18).
\<close>

theorem centered_window_ignores_requested_size:
  "\<exists>d. sf_to_centeredROIs 40 40 \<lparr>n_cols = 1600, csr_rows = [[(340, 1 / 2), (1300, 1 / 2)]]\<rparr>
         ([20], [20]) (20, 20) = Inr d
     \<and> d_shape d = (1, 36, 36)
     \<and> d_data d ! 0 ! 6 ! 18 = 1 / 2
     \<and> d_data d ! 0 ! 30 ! 18 = 1 / 2"
  unfolding centered_two_pixels
  by (simp add: todense_shape todense_nth) (simp add: dense_at_def)

section \<open>Centroids: the median method\<close>

text \<open>
  Claim C2 at failing inputs on a 4 x 4 FOV. For an ROI with pixels at (0, 1) and (1, 1)
  \<open>Data_suite2p.get_centroids\<close> returns \<open>None\<close>. For an ROI with pixels at (0, 1), (1, 1)
  and (2, 1), whose rows {0, 1, 2} have median 1 and whose columns {1} have median 1,
  \<open>Data_caiman.get_centroids\<close> returns row 2, because it drops row index 0 together with
  the rows that hold nothing and rounds the median 1.5 of {1, 2}.
\<close>

theorem median_centroid_defects:
  "get_centroids_suite2p weighted_mean ''median''
     \<lparr>n_cols = 16, csr_rows = [[(1, 1 / 2), (5, 1 / 2)]]\<rparr> 4 4 = Inr None
   \<and> get_centroids_caiman weighted_mean ''median''
     \<lparr>n_cols = 16, csr_rows = [[(1, 1), (5, 1), (9, 1)]]\<rparr> 4 4
     = Inr (Some ([Some 2], [Some 1]))"
  by code_simp

text \<open>
  Claim C8 at failing inputs, each one ROI with one pixel of weight 1 on a 4 x 4 FOV.
  With the median method \<open>Data_suite2p.get_centroids\<close> returns \<open>None\<close> for the pixel
  (1, 2). \<open>Data_caiman.get_centroids\<close> takes the median of no value where the only index
  is 0: for the pixel (0, 0) both components are non-finite, for the pixel (0, 2) the row
  component is.
\<close>

theorem median_centroid_not_in_fov:
  "get_centroids_suite2p weighted_mean ''median'' \<lparr>n_cols = 16, csr_rows = [[(6, 1)]]\<rparr> 4 4 = Inr None
   \<and> get_centroids_caiman weighted_mean ''median'' \<lparr>n_cols = 16, csr_rows = [[(0, 1)]]\<rparr> 4 4
     = Inr (Some ([None], [None]))
   \<and> get_centroids_caiman weighted_mean ''median'' \<lparr>n_cols = 16, csr_rows = [[(2, 1)]]\<rparr> 4 4
     = Inr (Some ([None], [Some 2]))"
  by code_simp

section \<open>Labels\<close>

lemma import_ROI_labels_suite2p_no_check:
  "import_ROI_labels_suite2p squeeze_integers (import_statFiles loaded) raw_labels =
     (if raw_labels = [] then Inl ValueError else Inr (squeeze_integers (concat raw_labels)))"
  by (simp add: import_ROI_labels_suite2p_def import_statFiles_def)

text \<open>
  Claim C7 at a failing input: a suite2p dataset of one session with two ROIs and a label
  file with three labels. \<open>import_ROI_labels\<close> returns the labels: \<open>self.statFiles\<close> is a
  list, so the assertion is not evaluated. In \<open>Data_caiman\<close> the method raises
  \<open>AttributeError\<close> whatever the counts are, here for two labels.
\<close>

theorem label_count_mismatch_accepted:
  "import_ROI_labels_suite2p squeeze_integers
     (import_statFiles [[\<lparr>ypix = [0], xpix = [0], lam = [1]\<rparr>, \<lparr>ypix = [1], xpix = [1], lam = [1]\<rparr>]])
     [[0, 1, 1]]
   = Inr (squeeze_integers [0, 1, 1])
   \<and> import_ROI_labels_caiman squeeze_integers [[0, 1]] = Inl AttributeError"
  by (simp add: import_ROI_labels_suite2p_def import_statFiles_def import_ROI_labels_caiman_def)

section \<open>Suite2p: the legacy pixel shift\<close>

lemma sequence_sum_map_Inr:
  "(\<And>x. x \<in> set xs \<Longrightarrow> f x = Inr (g x)) \<Longrightarrow> sequence_sum (map f xs) = Inr (map g xs)"
  by (induction xs) auto

lemma sequence_sum_Inr:
  "sequence_sum rs = Inr xs \<Longrightarrow> length xs = length rs \<and> (\<forall>j < length rs. rs ! j = Inr (xs ! j))"
proof (induction rs arbitrary: xs rule: sequence_sum.induct)
  case 1
  then show ?case by simp
next
  case (2 e rs)
  then show ?case by simp
next
  case (3 x rs)
  then show ?case
    by (auto split: sum.splits simp: nth_Cons')
qed





lemma uint_word_of_int_u64: "uint (word_of_int k :: uint64) = k mod 2 ^ 64"
  by (simp add: uint_word_of_int)


text \<open>
  The conversion to the index type gives back an integer of 32-bit size that went through
  the unsigned 64-bit integers.
\<close>

lemma signed_take_bit_mod_u64:
  "signed_take_bit 31 (k mod 2 ^ 64 :: int) = signed_take_bit 31 k"
  "signed_take_bit 63 (k mod 2 ^ 64 :: int) = signed_take_bit 63 k"
proof -
  have "k mod 2 ^ 64 = take_bit 64 k" by (simp only: take_bit_eq_mod)
  then show "signed_take_bit 31 (k mod 2 ^ 64 :: int) = signed_take_bit 31 k"
    "signed_take_bit 63 (k mod 2 ^ 64 :: int) = signed_take_bit 63 k"
    by (simp_all only: signed_take_bit_take_bit) simp_all
qed

lemma index_cast_word_of_int:
  assumes "- (2 ^ 31) \<le> k" "k < 2 ^ 31"
  shows "index_cast shape (word_of_int k) = k"
proof -
  have a: "signed_take_bit 31 k = k" using assms by (intro signed_take_bit_int_eq_self) simp_all
  have "- (2 ^ 63) \<le> k" "k < 2 ^ 63" using assms by simp_all
  then have b: "signed_take_bit 63 k = k" by (intro signed_take_bit_int_eq_self) simp_all
  show ?thesis
    unfolding index_cast_def uint_word_of_int_u64 signed_take_bit_mod_u64 a b by simp
qed

lemma index_cast_shifted:
  assumes "- (2 ^ 31) \<le> y + a" "y + a < 2 ^ 31"
  shows "index_cast shape (word_of_int y + word_of_int a) = y + a"
proof -
  have "(word_of_int y + word_of_int a :: uint64) = word_of_int (y + a)" by simp
  then show ?thesis using index_cast_word_of_int[OF assms] by simp
qed

lemma init_shifts_old:
  assumes "list_all (\<lambda>op. yrange op \<noteq> [] \<and> xrange op \<noteq> []) opss"
  shows "init_shifts ''old'' (Some opss) n =
     Inr (map (\<lambda>op. (word_of_int (Min (set (yrange op)) - 1),
                       word_of_int (Min (set (xrange op)) - 1))) opss)"
proof -
  have "\<And>op. op \<in> set opss \<Longrightarrow> ops_shift op =
      Inr (word_of_int (Min (set (yrange op)) - 1), word_of_int (Min (set (xrange op)) - 1))"
    using assms by (auto simp: list_all_iff ops_shift_def)
  from sequence_sum_map_Inr[of opss ops_shift, OF this] show ?thesis
    by (simp add: init_shifts_def)
qed

text \<open>The footprint of one ROI, when its construction succeeds.\<close>

lemma populate_roi_Inr:
  assumes "populate_roi normalise (H, W) s roi = Inr row"
  shows "length (ypix roi) = length (xpix roi)"
    and "\<forall>y \<in> set (ypix roi). 0 \<le> index_cast (H, W) (word_of_int y + fst s)
                                \<and> index_cast (H, W) (word_of_int y + fst s) < int H"
    and "\<forall>x \<in> set (xpix roi). 0 \<le> index_cast (H, W) (word_of_int x + snd s)
                                \<and> index_cast (H, W) (word_of_int x + snd s) < int W"
    and "set (map fst row) =
           (\<lambda>(y, x). nat (index_cast (H, W) (word_of_int y + fst s)) * W
                      + nat (index_cast (H, W) (word_of_int x + snd s)))
           ` set (zip (ypix roi) (xpix roi))"
    and "sorted (map fst row)" and "distinct (map fst row)"
proof -
  let ?cy = "\<lambda>y. index_cast (H, W) (word_of_int y + fst s)"
  let ?cx = "\<lambda>x. index_cast (H, W) (word_of_int x + snd s)"
  let ?rs = "map ?cy (ypix roi)"
  let ?cs = "map ?cx (xpix roi)"
  let ?l = "normalise (lam roi)"
  let ?es = "map (\<lambda>(l, r, c). (nat r * W + nat c, l)) (zip ?l (zip ?rs ?cs))"
  from assms have len: "length ?rs = length ?l" "length ?cs = length ?l"
    and ok: "list_all (\<lambda>r. 0 \<le> r \<and> r < int H) ?rs" "list_all (\<lambda>c. 0 \<le> c \<and> c < int W) ?cs"
    and row: "row = sum_duplicates ?es"
    by (auto simp: populate_roi_def shifted_pix_def Let_def comp_def split: if_splits)
  from len show "length (ypix roi) = length (xpix roi)" by simp
  from ok(1) show "\<forall>y \<in> set (ypix roi). 0 \<le> ?cy y \<and> ?cy y < int H"
    by (simp add: list_all_iff)
  from ok(2) show "\<forall>x \<in> set (xpix roi). 0 \<le> ?cx x \<and> ?cx x < int W"
    by (simp add: list_all_iff)
  show "sorted (map fst row)" unfolding row by (rule sorted_sum_duplicates)
  show "distinct (map fst row)" unfolding row by (rule distinct_sum_duplicates)
  have "set (map fst row) = fst ` set ?es"
    unfolding row using set_sum_duplicates_keys[of ?es] by simp
  also have "fst ` set ?es = (\<lambda>(r, c). nat r * W + nat c) ` set (map snd (zip ?l (zip ?rs ?cs)))"
    by (force simp: case_prod_unfold)
  also have "map snd (zip ?l (zip ?rs ?cs)) = zip ?rs ?cs"
    using len by (intro map_snd_zip) simp
  also have "zip ?rs ?cs = map (\<lambda>(y, x). (?cy y, ?cx x)) (zip (ypix roi) (xpix roi))"
    by (simp add: zip_map_map)
  finally show "set (map fst row) =
           (\<lambda>(y, x). nat (?cy y) * W + nat (?cx x)) ` set (zip (ypix roi) (xpix roi))"
    by (force simp: case_prod_unfold)
qed




lemma helper_populate_sf_Inr:
  assumes "helper_populate_sf normalise (H, W) stat s = Inr sf"
  shows "n_cols sf = H * W" and "shape0 sf = length stat"
    and "\<forall>j < length stat. populate_roi normalise (H, W) s (stat ! j) = Inr (csr_rows sf ! j)"
proof -
  from assms obtain rows where
    seq: "sequence_sum (map (populate_roi normalise (H, W) s) stat) = Inr rows"
    and sf: "sf = \<lparr>n_cols = H * W, csr_rows = rows\<rparr>"
    by (auto simp: helper_populate_sf_def split: sum.splits if_splits)
  from sequence_sum_Inr[OF seq] have len: "length rows = length stat"
    and each: "\<forall>j < length stat. populate_roi normalise (H, W) s (stat ! j) = Inr (rows ! j)"
    by auto
  from sf show "n_cols sf = H * W" by simp
  from sf len show "shape0 sf = length stat" by (simp add: shape0_def)
  from sf each show "\<forall>j < length stat. populate_roi normalise (H, W) s (stat ! j) = Inr (csr_rows sf ! j)"
    by simp
qed


text \<open>
  Pixels shifted by integers \<open>a\<close> and \<open>b\<close> that went through the unsigned 64-bit
  integers: when the construction succeeds and the shifted indices are of 32-bit size,
  every pixel \<open>(y, x)\<close> lies in the frame at \<open>(y + a, x + b)\<close> and is stored there.
\<close>

lemma populate_roi_rows:
  assumes row: "populate_roi normalise (H, W) s roi = Inr row"
    and s: "fst s = word_of_int a"
    and small: "list_all (\<lambda>y. - (2 ^ 31) \<le> y + a \<and> y + a < 2 ^ 31) (ypix roi)"
  shows "list_all (\<lambda>y. 0 \<le> y + a \<and> y + a < int H) (ypix roi)"
    and "(\<lambda>k. k div W) ` set (map fst row) = (\<lambda>y. nat (y + a)) ` set (ypix roi)"
proof -
  let ?cy = "\<lambda>y. index_cast (H, W) (word_of_int y + fst s)"
  let ?cx = "\<lambda>x. index_cast (H, W) (word_of_int x + snd s)"
  let ?Z = "set (zip (ypix roi) (xpix roi))"
  note r = populate_roi_Inr[OF row]
  have cy: "?cy y = y + a" if "y \<in> set (ypix roi)" for y
    using small that unfolding s by (intro index_cast_shifted) (auto simp: list_all_iff)
  from r(2) cy show "list_all (\<lambda>y. 0 \<le> y + a \<and> y + a < int H) (ypix roi)"
    by (simp add: list_all_iff)
  have inZ: "y \<in> set (ypix roi) \<and> x \<in> set (xpix roi)" if "(y, x) \<in> ?Z" for y x
    using that by (auto dest: set_zip_leftD set_zip_rightD)
  have "(\<lambda>k. k div W) ` set (map fst row) = (\<lambda>(y, x). (nat (?cy y) * W + nat (?cx x)) div W) ` ?Z"
    unfolding r(4) by (simp add: image_image case_prod_unfold)
  also have "\<dots> = (\<lambda>(y, x). nat (y + a)) ` ?Z"
  proof (rule image_cong[OF refl])
    fix p assume p: "p \<in> ?Z"
    obtain y x where yx: "p = (y, x)" by (cases p)
    from p yx inZ have y: "y \<in> set (ypix roi)" and x: "x \<in> set (xpix roi)" by auto
    from r(3) x have "nat (?cx x) < W" by (auto simp: nat_less_iff)
    then have "(nat (?cy y) * W + nat (?cx x)) div W = nat (?cy y)" by (rule div_add_less)
    with cy[OF y] yx
    show "(case p of (y, x) \<Rightarrow> (nat (?cy y) * W + nat (?cx x)) div W) = (case p of (y, x) \<Rightarrow> nat (y + a))"
      by simp
  qed
  also have "\<dots> = (\<lambda>y. nat (y + a)) ` fst ` ?Z" by (simp add: image_image case_prod_unfold)
  also have "fst ` ?Z = set (map fst (zip (ypix roi) (xpix roi)))" by simp
  also have "map fst (zip (ypix roi) (xpix roi)) = ypix roi"
    using r(1) by (intro map_fst_zip) simp
  finally show "(\<lambda>k. k div W) ` set (map fst row) = (\<lambda>y. nat (y + a)) ` set (ypix roi)" .
qed

lemma populate_roi_cols:
  assumes row: "populate_roi normalise (H, W) s roi = Inr row"
    and s: "snd s = word_of_int b"
    and small: "list_all (\<lambda>x. - (2 ^ 31) \<le> x + b \<and> x + b < 2 ^ 31) (xpix roi)"
  shows "list_all (\<lambda>x. 0 \<le> x + b \<and> x + b < int W) (xpix roi)"
    and "(\<lambda>k. k mod W) ` set (map fst row) = (\<lambda>x. nat (x + b)) ` set (xpix roi)"
proof -
  let ?cy = "\<lambda>y. index_cast (H, W) (word_of_int y + fst s)"
  let ?cx = "\<lambda>x. index_cast (H, W) (word_of_int x + snd s)"
  let ?Z = "set (zip (ypix roi) (xpix roi))"
  note r = populate_roi_Inr[OF row]
  have cx: "?cx x = x + b" if "x \<in> set (xpix roi)" for x
    using small that unfolding s by (intro index_cast_shifted) (auto simp: list_all_iff)
  from r(3) cx show "list_all (\<lambda>x. 0 \<le> x + b \<and> x + b < int W) (xpix roi)"
    by (simp add: list_all_iff)
  have inZ: "y \<in> set (ypix roi) \<and> x \<in> set (xpix roi)" if "(y, x) \<in> ?Z" for y x
    using that by (auto dest: set_zip_leftD set_zip_rightD)
  have "(\<lambda>k. k mod W) ` set (map fst row) = (\<lambda>(y, x). (nat (?cy y) * W + nat (?cx x)) mod W) ` ?Z"
    unfolding r(4) by (simp add: image_image case_prod_unfold)
  also have "\<dots> = (\<lambda>(y, x). nat (x + b)) ` ?Z"
  proof (rule image_cong[OF refl])
    fix p assume p: "p \<in> ?Z"
    obtain y x where yx: "p = (y, x)" by (cases p)
    from p yx inZ have y: "y \<in> set (ypix roi)" and x: "x \<in> set (xpix roi)" by auto
    from r(3) x have "nat (?cx x) < W" by (auto simp: nat_less_iff)
    then have "(nat (?cy y) * W + nat (?cx x)) mod W = nat (?cx x)" by simp
    with cx[OF x] yx
    show "(case p of (y, x) \<Rightarrow> (nat (?cy y) * W + nat (?cx x)) mod W) = (case p of (y, x) \<Rightarrow> nat (x + b))"
      by simp
  qed
  also have "\<dots> = (\<lambda>x. nat (x + b)) ` snd ` ?Z" by (simp add: image_image case_prod_unfold)
  also have "snd ` ?Z = set (map snd (zip (ypix roi) (xpix roi)))" by simp
  also have "map snd (zip (ypix roi) (xpix roi)) = xpix roi"
    using r(1) by (intro map_snd_zip) simp
  finally show "(\<lambda>k. k mod W) ` set (map fst row) = (\<lambda>x. nat (x + b)) ` set (xpix roi)" .
qed

lemma populate_roi_positions:
  assumes row: "populate_roi normalise (H, W) (word_of_int a, word_of_int b) roi = Inr row"
    and ys: "list_all (\<lambda>y. - (2 ^ 31) \<le> y + a \<and> y + a < 2 ^ 31) (ypix roi)"
    and xs: "list_all (\<lambda>x. - (2 ^ 31) \<le> x + b \<and> x + b < 2 ^ 31) (xpix roi)"
  shows "set (map fst row) = (\<lambda>(y, x). nat (y + a) * W + nat (x + b)) ` set (zip (ypix roi) (xpix roi))"
proof -
  let ?Z = "set (zip (ypix roi) (xpix roi))"
  note r = populate_roi_Inr[OF row]
  have inZ: "y \<in> set (ypix roi) \<and> x \<in> set (xpix roi)" if "(y, x) \<in> ?Z" for y x
    using that by (auto dest: set_zip_leftD set_zip_rightD)
  show ?thesis
    unfolding r(4)
  proof (rule image_cong[OF refl])
    fix p assume p: "p \<in> ?Z"
    obtain y x where yx: "p = (y, x)" by (cases p)
    from p yx inZ have y: "y \<in> set (ypix roi)" and x: "x \<in> set (xpix roi)" by auto
    have "index_cast (H, W) (word_of_int y + word_of_int a) = y + a"
      using ys y by (intro index_cast_shifted) (auto simp: list_all_iff)
    moreover have "index_cast (H, W) (word_of_int x + word_of_int b) = x + b"
      using xs x by (intro index_cast_shifted) (auto simp: list_all_iff)
    ultimately show "(case p of (y, x) \<Rightarrow>
          nat (index_cast (H, W) (word_of_int y + fst (word_of_int a :: uint64, word_of_int b :: uint64))) * W
          + nat (index_cast (H, W) (word_of_int x + snd (word_of_int a :: uint64, word_of_int b :: uint64))))
        = (case p of (y, x) \<Rightarrow> nat (y + a) * W + nat (x + b))"
      using yx by simp
  qed
qed

text \<open>
  The footprint row of an ROI comes out sorted, with the weights of a repeated pixel added
  up: the pixels (1, 0), (0, 0), (1, 0) with weights 1/4, 1/2, 1/4 on a 12 x 12 frame give
  the columns 0 and 12, each with weight 1/2.
\<close>

lemma helper_populate_sf_canonical:
  "helper_populate_sf (\<lambda>l. l) (12, 12)
     [\<lparr>ypix = [1, 0, 1], xpix = [0, 0, 0], lam = [1 / 4, 1 / 2, 1 / 4]\<rparr>] (0, 0)
   = Inr \<lparr>n_cols = 144, csr_rows = [[(0, 1 / 2), (12, 1 / 2)]]\<rparr>"
  by (simp add: helper_populate_sf_def populate_roi_def shifted_pix_def index_cast_def sum_duplicates_def)

text \<open>
  Claim C5, as stated for every legacy session, fails for a session whose \<open>yrange\<close> has
  minimum 0: the row shift is not \<open>min(yrange) - 1 = -1\<close> but \<open>2^64 - 1\<close>.
\<close>

theorem legacy_shift_min_zero_not_minus_one:
  "init_shifts ''old'' (Some [\<lparr>yrange = [0, 10], xrange = [3, 8]\<rparr>]) 1
     = Inr [(18446744073709551615, 2)]
   \<and> uint (18446744073709551615 :: uint64) = 2 ^ 64 - 1
   \<and> Min (set (yrange \<lparr>yrange = [0, 10], xrange = [3, 8]\<rparr>)) - 1 = - 1"
  by (simp add: init_shifts_def ops_shift_def)

text \<open>
  Claim C5 (amended). With ops files whose ranges are not empty, the legacy convention
  gives one shift per session, and for every session \<open>i\<close>:

  \<^item> the shift is \<open>(min(yrange) - 1, min(xrange) - 1)\<close> converted to unsigned 64-bit
    integers, that is, taken modulo \<open>2^64\<close>: the integer \<open>min - 1\<close> itself for every
    minimum from 1 on;
  \<^item> it is added to every row and column pixel index of every ROI, in unsigned 64-bit
    arithmetic;
  \<^item> whenever \<open>_helper_populate_sf\<close> returns a footprint matrix for that shift, the
    matrix has one row per ROI, and every ROI whose shifted indices are of 32-bit size
    has all its pixels \<open>(y, x)\<close> inside the frame at
    \<open>(y + min(yrange) - 1, x + min(xrange) - 1)\<close>, and its row of the matrix stores
    exactly those positions, in row-major order, each once.

  With \<open>yrange = [5, 10]\<close> and \<open>xrange = [3, 8]\<close> the shift is (4, 2) and the pixel (0, 0)
  lands at (4, 2). Under the modern convention every shift is (0, 0).
\<close>

theorem legacy_shift_applied:
  assumes "list_all (\<lambda>op. yrange op \<noteq> [] \<and> xrange op \<noteq> []) opss"
  shows "\<exists>shifts. init_shifts ''old'' (Some opss) n = Inr shifts \<and> length shifts = length opss
    \<and> (\<forall>i < length opss.
          let a = Min (set (yrange (opss ! i))) - 1; b = Min (set (xrange (opss ! i))) - 1
          in uint (fst (shifts ! i)) = a mod 2 ^ 64 \<and> uint (snd (shifts ! i)) = b mod 2 ^ 64
           \<and> (0 \<le> a \<and> a < 2 ^ 64 \<longrightarrow> uint (fst (shifts ! i)) = a)
           \<and> (0 \<le> b \<and> b < 2 ^ 64 \<longrightarrow> uint (snd (shifts ! i)) = b)
           \<and> (\<forall>roi. shifted_pix (shifts ! i) roi
                      = (map (\<lambda>y. word_of_int (y + a)) (ypix roi), map (\<lambda>x. word_of_int (x + b)) (xpix roi)))
           \<and> (\<forall>sf. helper_populate_sf normalise (H, W) stat (shifts ! i) = Inr sf \<longrightarrow>
                  n_cols sf = H * W \<and> shape0 sf = length stat
                \<and> (\<forall>j < length stat.
                      list_all (\<lambda>y. - (2 ^ 31) \<le> y + a \<and> y + a < 2 ^ 31) (ypix (stat ! j))
                    \<and> list_all (\<lambda>x. - (2 ^ 31) \<le> x + b \<and> x + b < 2 ^ 31) (xpix (stat ! j))
                    \<longrightarrow> length (ypix (stat ! j)) = length (xpix (stat ! j))
                      \<and> list_all (\<lambda>y. 0 \<le> y + a \<and> y + a < int H) (ypix (stat ! j))
                      \<and> list_all (\<lambda>x. 0 \<le> x + b \<and> x + b < int W) (xpix (stat ! j))
                      \<and> set (map fst (csr_rows sf ! j))
                          = (\<lambda>(y, x). nat (y + a) * W + nat (x + b))
                            ` set (zip (ypix (stat ! j)) (xpix (stat ! j)))
                      \<and> sorted (map fst (csr_rows sf ! j))
                      \<and> distinct (map fst (csr_rows sf ! j)))))
    \<and> init_shifts ''old'' (Some [\<lparr>yrange = [5, 10], xrange = [3, 8]\<rparr>]) 1 = Inr [(4, 2)]
    \<and> helper_populate_sf (\<lambda>l. l) (12, 12) [\<lparr>ypix = [0], xpix = [0], lam = [1]\<rparr>] (4, 2)
        = Inr \<lparr>n_cols = 144, csr_rows = [[(4 * 12 + 2, 1)]]\<rparr>
    \<and> init_shifts ''new'' (Some opss) n = Inr (replicate n (0, 0))
    \<and> init_shifts ''new'' None n = Inr (replicate n (0, 0))"
proof -
  let ?sh = "\<lambda>op. (word_of_int (Min (set (yrange op)) - 1) :: uint64,
                    word_of_int (Min (set (xrange op)) - 1) :: uint64)"
  let ?shifts = "map ?sh opss"
  have a: "init_shifts ''old'' (Some opss) n = Inr ?shifts"
    using assms by (rule init_shifts_old)
  have len: "length ?shifts = length opss" by simp
  have each: "let a = Min (set (yrange (opss ! i))) - 1; b = Min (set (xrange (opss ! i))) - 1
          in uint (fst (?shifts ! i)) = a mod 2 ^ 64 \<and> uint (snd (?shifts ! i)) = b mod 2 ^ 64
           \<and> (0 \<le> a \<and> a < 2 ^ 64 \<longrightarrow> uint (fst (?shifts ! i)) = a)
           \<and> (0 \<le> b \<and> b < 2 ^ 64 \<longrightarrow> uint (snd (?shifts ! i)) = b)
           \<and> (\<forall>roi. shifted_pix (?shifts ! i) roi
                      = (map (\<lambda>y. word_of_int (y + a)) (ypix roi), map (\<lambda>x. word_of_int (x + b)) (xpix roi)))
           \<and> (\<forall>sf. helper_populate_sf normalise (H, W) stat (?shifts ! i) = Inr sf \<longrightarrow>
                  n_cols sf = H * W \<and> shape0 sf = length stat
                \<and> (\<forall>j < length stat.
                      list_all (\<lambda>y. - (2 ^ 31) \<le> y + a \<and> y + a < 2 ^ 31) (ypix (stat ! j))
                    \<and> list_all (\<lambda>x. - (2 ^ 31) \<le> x + b \<and> x + b < 2 ^ 31) (xpix (stat ! j))
                    \<longrightarrow> length (ypix (stat ! j)) = length (xpix (stat ! j))
                      \<and> list_all (\<lambda>y. 0 \<le> y + a \<and> y + a < int H) (ypix (stat ! j))
                      \<and> list_all (\<lambda>x. 0 \<le> x + b \<and> x + b < int W) (xpix (stat ! j))
                      \<and> set (map fst (csr_rows sf ! j))
                          = (\<lambda>(y, x). nat (y + a) * W + nat (x + b))
                            ` set (zip (ypix (stat ! j)) (xpix (stat ! j)))
                      \<and> sorted (map fst (csr_rows sf ! j))
                      \<and> distinct (map fst (csr_rows sf ! j))))"
    if i: "i < length opss" for i
  proof -
    define a where "a = Min (set (yrange (opss ! i))) - 1"
    define b where "b = Min (set (xrange (opss ! i))) - 1"
    have s: "?shifts ! i = (word_of_int a, word_of_int b)"
      using i by (simp add: a_def b_def)
    have u: "uint (word_of_int a :: uint64) = a mod 2 ^ 64" "uint (word_of_int b :: uint64) = b mod 2 ^ 64"
      by (rule uint_word_of_int_u64)+
    have ua: "0 \<le> a \<and> a < 2 ^ 64 \<longrightarrow> uint (word_of_int a :: uint64) = a"
      unfolding u by (simp add: mod_pos_pos_trivial)
    have ub: "0 \<le> b \<and> b < 2 ^ 64 \<longrightarrow> uint (word_of_int b :: uint64) = b"
      unfolding u by (simp add: mod_pos_pos_trivial)
    have sp: "\<forall>roi. shifted_pix (word_of_int a, word_of_int b) roi
                      = (map (\<lambda>y. word_of_int (y + a)) (ypix roi), map (\<lambda>x. word_of_int (x + b)) (xpix roi))"
      by (simp add: shifted_pix_def)
    have pos: "\<forall>sf. helper_populate_sf normalise (H, W) stat (word_of_int a, word_of_int b) = Inr sf \<longrightarrow>
                  n_cols sf = H * W \<and> shape0 sf = length stat
                \<and> (\<forall>j < length stat.
                      list_all (\<lambda>y. - (2 ^ 31) \<le> y + a \<and> y + a < 2 ^ 31) (ypix (stat ! j))
                    \<and> list_all (\<lambda>x. - (2 ^ 31) \<le> x + b \<and> x + b < 2 ^ 31) (xpix (stat ! j))
                    \<longrightarrow> length (ypix (stat ! j)) = length (xpix (stat ! j))
                      \<and> list_all (\<lambda>y. 0 \<le> y + a \<and> y + a < int H) (ypix (stat ! j))
                      \<and> list_all (\<lambda>x. 0 \<le> x + b \<and> x + b < int W) (xpix (stat ! j))
                      \<and> set (map fst (csr_rows sf ! j))
                          = (\<lambda>(y, x). nat (y + a) * W + nat (x + b))
                            ` set (zip (ypix (stat ! j)) (xpix (stat ! j)))
                      \<and> sorted (map fst (csr_rows sf ! j))
                      \<and> distinct (map fst (csr_rows sf ! j)))"
    proof (intro allI impI conjI)
      fix sf
      assume sf: "helper_populate_sf normalise (H, W) stat (word_of_int a, word_of_int b) = Inr sf"
      note h = helper_populate_sf_Inr[OF sf]
      show "n_cols sf = H * W" by (rule h(1))
      show "shape0 sf = length stat" by (rule h(2))
      fix j
      assume j: "j < length stat"
        and small: "list_all (\<lambda>y. - (2 ^ 31) \<le> y + a \<and> y + a < 2 ^ 31) (ypix (stat ! j))
                    \<and> list_all (\<lambda>x. - (2 ^ 31) \<le> x + b \<and> x + b < 2 ^ 31) (xpix (stat ! j))"
      from h(3) j
      have row: "populate_roi normalise (H, W) (word_of_int a, word_of_int b) (stat ! j) = Inr (csr_rows sf ! j)"
        by blast
      note r = populate_roi_Inr[OF row]
      show "length (ypix (stat ! j)) = length (xpix (stat ! j))" by (rule r(1))
      show "list_all (\<lambda>y. 0 \<le> y + a \<and> y + a < int H) (ypix (stat ! j))"
        using small by (intro populate_roi_rows(1)[OF row]) simp_all
      show "list_all (\<lambda>x. 0 \<le> x + b \<and> x + b < int W) (xpix (stat ! j))"
        using small by (intro populate_roi_cols(1)[OF row]) simp_all
      show "set (map fst (csr_rows sf ! j))
              = (\<lambda>(y, x). nat (y + a) * W + nat (x + b)) ` set (zip (ypix (stat ! j)) (xpix (stat ! j)))"
        using small by (intro populate_roi_positions[OF row]) simp_all
      show "sorted (map fst (csr_rows sf ! j))" by (rule r(5))
      show "distinct (map fst (csr_rows sf ! j))" by (rule r(6))
    qed
    from u ua ub sp pos show ?thesis
      unfolding Let_def a_def[symmetric] b_def[symmetric] s fst_conv snd_conv by blast
  qed
  have e: "init_shifts ''old'' (Some [\<lparr>yrange = [5, 10], xrange = [3, 8]\<rparr>]) 1 = Inr [(4, 2)]"
    by (simp add: init_shifts_def ops_shift_def)
  have f: "helper_populate_sf (\<lambda>l. l) (12, 12) [\<lparr>ypix = [0], xpix = [0], lam = [1]\<rparr>] (4, 2)
        = Inr \<lparr>n_cols = 144, csr_rows = [[(4 * 12 + 2, 1)]]\<rparr>"
    by (simp add: helper_populate_sf_def populate_roi_def shifted_pix_def index_cast_def sum_duplicates_def)
  have g: "init_shifts ''new'' (Some opss) n = Inr (replicate n (0, 0))"
    "init_shifts ''new'' None n = Inr (replicate n (0, 0))"
    by (simp_all add: init_shifts_def)
  show ?thesis
    by (rule exI[of _ ?shifts]) (intro conjI allI impI a len each e f g)
qed

text \<open>
  Claim C5 at \<open>yrange = [5, 10]\<close>, \<open>xrange = [3, 8]\<close> and one ROI with the pixels (1, 0)
  and (0, 0), in that order, on a 12 x 12 frame: the shift is (4, 2) and the row of the
  ROI stores the positions (5, 2) and (4, 2), in increasing order.
\<close>

theorem legacy_shift_applied_witness:
  "list_all (\<lambda>op. yrange op \<noteq> [] \<and> xrange op \<noteq> []) [\<lparr>yrange = [5, 10], xrange = [3, 8]\<rparr>]
   \<and> (\<exists>shifts. init_shifts ''old'' (Some [\<lparr>yrange = [5, 10], xrange = [3, 8]\<rparr>]) 1 = Inr shifts
        \<and> uint (fst (shifts ! 0)) = 4 \<and> uint (snd (shifts ! 0)) = 2
        \<and> (\<exists>sf. helper_populate_sf (\<lambda>l. l) (12, 12)
                   [\<lparr>ypix = [1, 0], xpix = [0, 0], lam = [1 / 2, 1 / 2]\<rparr>] (shifts ! 0) = Inr sf
              \<and> list_all (\<lambda>y. - (2 ^ 31) \<le> y + 4 \<and> y + 4 < 2 ^ 31) [1, 0 :: int]
              \<and> list_all (\<lambda>x. - (2 ^ 31) \<le> x + 2 \<and> x + 2 < 2 ^ 31) [0, 0 :: int]
              \<and> set (map fst (csr_rows sf ! 0)) = {5 * 12 + 2, 4 * 12 + 2}
              \<and> sorted (map fst (csr_rows sf ! 0))))"
proof -
  let ?opss = "[\<lparr>yrange = [5, 10], xrange = [3, 8]\<rparr>]"
  let ?stat = "[\<lparr>ypix = [1, 0], xpix = [0, 0], lam = [1 / 2, 1 / 2 :: weight]\<rparr>]"
  have h: "list_all (\<lambda>op. yrange op \<noteq> [] \<and> xrange op \<noteq> []) ?opss" by simp
  from legacy_shift_applied[OF h, where n = 1 and normalise = "\<lambda>l. l" and H = 12 and W = 12
      and stat = ?stat]
  obtain shifts where s: "init_shifts ''old'' (Some ?opss) 1 = Inr shifts"
    and each: "\<forall>i < length ?opss.
          let a = Min (set (yrange (?opss ! i))) - 1; b = Min (set (xrange (?opss ! i))) - 1
          in uint (fst (shifts ! i)) = a mod 2 ^ 64 \<and> uint (snd (shifts ! i)) = b mod 2 ^ 64
           \<and> (0 \<le> a \<and> a < 2 ^ 64 \<longrightarrow> uint (fst (shifts ! i)) = a)
           \<and> (0 \<le> b \<and> b < 2 ^ 64 \<longrightarrow> uint (snd (shifts ! i)) = b)
           \<and> (\<forall>roi. shifted_pix (shifts ! i) roi
                      = (map (\<lambda>y. word_of_int (y + a)) (ypix roi), map (\<lambda>x. word_of_int (x + b)) (xpix roi)))
           \<and> (\<forall>sf. helper_populate_sf (\<lambda>l. l) (12, 12) ?stat (shifts ! i) = Inr sf \<longrightarrow>
                  n_cols sf = 12 * 12 \<and> shape0 sf = length ?stat
                \<and> (\<forall>j < length ?stat.
                      list_all (\<lambda>y. - (2 ^ 31) \<le> y + a \<and> y + a < 2 ^ 31) (ypix (?stat ! j))
                    \<and> list_all (\<lambda>x. - (2 ^ 31) \<le> x + b \<and> x + b < 2 ^ 31) (xpix (?stat ! j))
                    \<longrightarrow> length (ypix (?stat ! j)) = length (xpix (?stat ! j))
                      \<and> list_all (\<lambda>y. 0 \<le> y + a \<and> y + a < int 12) (ypix (?stat ! j))
                      \<and> list_all (\<lambda>x. 0 \<le> x + b \<and> x + b < int 12) (xpix (?stat ! j))
                      \<and> set (map fst (csr_rows sf ! j))
                          = (\<lambda>(y, x). nat (y + a) * 12 + nat (x + b))
                            ` set (zip (ypix (?stat ! j)) (xpix (?stat ! j)))
                      \<and> sorted (map fst (csr_rows sf ! j))
                      \<and> distinct (map fst (csr_rows sf ! j))))"
    by (elim exE conjE)
  from each have e0: "uint (fst (shifts ! 0)) = 4 mod 2 ^ 64 \<and> uint (snd (shifts ! 0)) = 2 mod 2 ^ 64
           \<and> (\<forall>sf. helper_populate_sf (\<lambda>l. l) (12, 12) ?stat (shifts ! 0) = Inr sf \<longrightarrow>
                  set (map fst (csr_rows sf ! 0)) = {5 * 12 + 2, 4 * 12 + 2}
                \<and> sorted (map fst (csr_rows sf ! 0)))"
    by (simp add: Let_def)
  have "init_shifts ''old'' (Some ?opss) 1 = Inr [(4, 2)]"
    by (simp add: init_shifts_def ops_shift_def)
  with s have sh: "shifts = [(4, 2)]" by simp
  have "helper_populate_sf (\<lambda>l. l) (12, 12) ?stat (4, 2)
      = Inr \<lparr>n_cols = 144, csr_rows = [[(50, 1 / 2), (62, 1 / 2)]]\<rparr>"
    by (simp add: helper_populate_sf_def populate_roi_def shifted_pix_def index_cast_def sum_duplicates_def)
  then obtain sf where sf: "helper_populate_sf (\<lambda>l. l) (12, 12) ?stat (shifts ! 0) = Inr sf"
    unfolding sh by simp
  with e0 have pos: "set (map fst (csr_rows sf ! 0)) = {5 * 12 + 2, 4 * 12 + 2}"
    "sorted (map fst (csr_rows sf ! 0))" by blast+
  from e0 have u: "uint (fst (shifts ! 0)) = 4" "uint (snd (shifts ! 0)) = 2" by simp_all
  have small: "list_all (\<lambda>y. - (2 ^ 31) \<le> y + 4 \<and> y + 4 < 2 ^ 31) [1, 0 :: int]"
    "list_all (\<lambda>x. - (2 ^ 31) \<le> x + 2 \<and> x + 2 < 2 ^ 31) [0, 0 :: int]" by simp_all
  have "\<exists>sf. helper_populate_sf (\<lambda>l. l) (12, 12) ?stat (shifts ! 0) = Inr sf
              \<and> list_all (\<lambda>y. - (2 ^ 31) \<le> y + 4 \<and> y + 4 < 2 ^ 31) [1, 0 :: int]
              \<and> list_all (\<lambda>x. - (2 ^ 31) \<le> x + 2 \<and> x + 2 < 2 ^ 31) [0, 0 :: int]
              \<and> set (map fst (csr_rows sf ! 0)) = {5 * 12 + 2, 4 * 12 + 2}
              \<and> sorted (map fst (csr_rows sf ! 0))"
    by (rule exI[of _ sf]) (intro conjI sf small pos)
  with s u have "\<exists>shifts. init_shifts ''old'' (Some ?opss) 1 = Inr shifts
        \<and> uint (fst (shifts ! 0)) = 4 \<and> uint (snd (shifts ! 0)) = 2
        \<and> (\<exists>sf. helper_populate_sf (\<lambda>l. l) (12, 12) ?stat (shifts ! 0) = Inr sf
              \<and> list_all (\<lambda>y. - (2 ^ 31) \<le> y + 4 \<and> y + 4 < 2 ^ 31) [1, 0 :: int]
              \<and> list_all (\<lambda>x. - (2 ^ 31) \<le> x + 2 \<and> x + 2 < 2 ^ 31) [0, 0 :: int]
              \<and> set (map fst (csr_rows sf ! 0)) = {5 * 12 + 2, 4 * 12 + 2}
              \<and> sorted (map fst (csr_rows sf ! 0)))"
    by (intro exI[of _ shifts] conjI)
  with h show ?thesis by (intro conjI)
qed




section \<open>CaImAn: column-major to row-major\<close>

lemma mod_add_less:
  fixes i k m :: nat
  assumes "k < m"
  shows "(i * m + k) mod m = k"
  using assms by simp

lemma digits_less:
  fixes r c H W :: nat
  assumes "r < H" "c < W"
  shows "r * W + c < W * H"
proof -
  have "r * W + c < r * W + W" using assms(2) by simp
  also have "\<dots> = Suc r * W" by simp
  also have "\<dots> \<le> H * W" using assms(1) by (intro mult_le_mono1) simp
  finally show ?thesis by (simp add: mult.commute)
qed

lemma ravel_transposed:
  fixes i r c H W :: nat
  assumes "r < H" "c < W"
  shows "((i * H + r) * W + c) div (W * H) = i" and "((i * H + r) * W + c) mod (W * H) = r * W + c"
proof -
  have eq: "(i * H + r) * W + c = i * (W * H) + (r * W + c)" by (simp add: algebra_simps)
  have lt: "r * W + c < W * H" using assms by (rule digits_less)
  show "((i * H + r) * W + c) div (W * H) = i" unfolding eq using lt by (rule div_add_less)
  show "((i * H + r) * W + c) mod (W * H) = r * W + c" unfolding eq using lt by (rule mod_add_less)
qed

lemma digits_unique:
  fixes a b r c W :: nat
  assumes "a * W + b = r * W + c" "b < W" "c < W"
  shows "a = r \<and> b = c"
proof -
  have "(a * W + b) div W = a" using assms(2) by (rule div_add_less)
  moreover have "(r * W + c) div W = r" using assms(3) by (rule div_add_less)
  ultimately have "a = r" using assms(1) by simp
  with assms(1) show ?thesis by simp
qed

lemma transposed_index_iff:
  fixes k r c H W :: nat
  assumes "k < W * H" "r < H" "c < W"
  shows "(k mod H) * W + k div H = r * W + c \<longleftrightarrow> k = c * H + r"
proof
  assume "(k mod H) * W + k div H = r * W + c"
  moreover have "k div H < W" using assms(1) by (simp add: less_mult_imp_div_less mult.commute)
  ultimately have "k mod H = r \<and> k div H = c" using assms(3) by (intro digits_unique)
  then have "k = c * H + r" by (metis div_mult_mod_eq)
  then show "k = c * H + r" .
next
  assume "k = c * H + r"
  then show "(k mod H) * W + k div H = r * W + c"
    using assms(2) by (simp add: div_add_less)
qed

lemma filter_row_blocks:
  "filter (\<lambda>((i', k), v). i' = i)
     (concat (map (\<lambda>(j, row). map (\<lambda>(k, v). ((j, f k), v)) row) (enumerate m rows)))
   = (if m \<le> i \<and> i < m + length rows then map (\<lambda>(k, v). ((i, f k), v)) (rows ! (i - m)) else [])"
proof (induction rows arbitrary: m)
  case Nil
  then show ?case by auto
next
  case (Cons row rows)
  have hd: "filter (\<lambda>((i', k), v). i' = i) (map (\<lambda>(k, v). ((m, f k), v)) row)
      = (if m = i then map (\<lambda>(k, v). ((i, f k), v)) row else [])"
    by (induction row) auto
  show ?case
    using Cons.IH[of "Suc m"] hd
    by (auto simp: nth_Cons' Suc_diff_le)
qed

lemma sum_filter_insort:
  "sum_list (map g (filter P (insort_key f x xs))) = sum_list (map g (filter P (x # xs)))"
  for g :: "'a \<Rightarrow> rat"
  by (induction xs) (auto simp: add_ac)

lemma sum_filter_sort:
  "sum_list (map g (filter P (sort_key f xs))) = sum_list (map g (filter P xs))"
  for g :: "'a \<Rightarrow> rat"
proof (induction xs)
  case Nil
  then show ?case by simp
next
  case (Cons x xs)
  have "sum_list (map g (filter P (sort_key f (x # xs))))
      = sum_list (map g (filter P (x # sort_key f xs)))"
    by (simp add: sum_filter_insort)
  with Cons show ?case by simp
qed


lemma F_to_C_entries:
  assumes "n_cols sf_F = W * H" and "csr_valid sf_F"
  shows "F_to_C sf_F H W =
    Inr (coo_tocsr \<lparr>coo2_shape = (shape0 sf_F, W * H),
           coo2_entries = concat (map (\<lambda>(i, row). map (\<lambda>(k, v). ((i, (k mod H) * W + k div H), v)) row)
                                     (enumerate 0 (map sum_duplicates (csr_rows sf_F))))\<rparr>)"
proof -
  have "\<And>row. row \<in> set (csr_rows sf_F) \<Longrightarrow> list_all (\<lambda>(k, v). k < W * H) (sum_duplicates row)"
    using assms by (intro sum_duplicates_bound) (auto simp: csr_valid_def list_all_iff)
  then have "\<And>row. row \<in> set (map sum_duplicates (csr_rows sf_F)) \<Longrightarrow> \<forall>e \<in> set row. fst e < W * H"
    by (fastforce simp: list_all_iff)
  moreover have "\<And>i row. (i, row) \<in> set (enumerate 0 (map sum_duplicates (csr_rows sf_F)))
      \<Longrightarrow> row \<in> set (map sum_duplicates (csr_rows sf_F))"
    by (metis in_set_zipE enumerate_eq_zip)
  ultimately have valid: "\<And>i row k v. (i, row) \<in> set (enumerate 0 (map sum_duplicates (csr_rows sf_F)))
      \<Longrightarrow> (k, v) \<in> set row \<Longrightarrow> k < W * H"
    by (metis fst_conv)
  have digits: "\<And>k. k < W * H \<Longrightarrow> k mod H < H \<and> k div H < W"
  proof -
    fix k assume k: "k < W * H"
    then have "H \<noteq> 0" by (cases H) auto
    then have "k mod H < H" by simp
    moreover have "k div H < W" using k by (simp add: less_mult_imp_div_less mult.commute)
    ultimately show "k mod H < H \<and> k div H < W" by simp
  qed
  have rs: "coo_reshape3 (coo_of_csr sf_F) (shape0 sf_F, W, H) =
    Inr \<lparr>coo_shape = (shape0 sf_F, W, H),
         coo_entries = concat (map (\<lambda>(i, row). map (\<lambda>(k, v). ((i, k div H, k mod H), v)) row)
                                   (enumerate 0 (map sum_duplicates (csr_rows sf_F))))\<rparr>"
    using assms by (rule reshape_footprints)
  have ents: "map (\<lambda>((i, r, c'), v). let lin = (i * H + r) * W + c' in ((lin div (W * H), lin mod (W * H)), v))
       (map (\<lambda>((i, r, c), v). ((i, c, r), v))
         (concat (map (\<lambda>(i, row). map (\<lambda>(k, v). ((i, k div H, k mod H), v)) row)
                      (enumerate 0 (map sum_duplicates (csr_rows sf_F))))))
     = concat (map (\<lambda>(i, row). map (\<lambda>(k, v). ((i, (k mod H) * W + k div H), v)) row)
                   (enumerate 0 (map sum_duplicates (csr_rows sf_F))))"
    using valid digits
    by (auto simp: map_concat Let_def ravel_transposed intro!: arg_cong[where f = concat])
  let ?E = "concat (map (\<lambda>(i, row). map (\<lambda>(k, v). ((i, k div H, k mod H), v)) row)
                                   (enumerate 0 (map sum_duplicates (csr_rows sf_F))))"
  have tr: "coo_transpose_021 \<lparr>coo_shape = (shape0 sf_F, W, H), coo_entries = ?E\<rparr>
      = \<lparr>coo_shape = (shape0 sf_F, H, W), coo_entries = map (\<lambda>((i, r, c), v). ((i, c, r), v)) ?E\<rparr>"
    by (simp add: coo_transpose_021_def)
  have size: "shape0 sf_F * H * W = shape0 sf_F * (W * H)" by (simp add: mult.commute mult.left_commute)
  have r2: "coo_reshape2 \<lparr>coo_shape = (shape0 sf_F, H, W),
                           coo_entries = map (\<lambda>((i, r, c), v). ((i, c, r), v)) ?E\<rparr>
                         (shape0 sf_F, W * H)
      = Inr \<lparr>coo2_shape = (shape0 sf_F, W * H),
             coo2_entries =
               map (\<lambda>((i, r, c'), v). let lin = (i * H + r) * W + c' in ((lin div (W * H), lin mod (W * H)), v))
                   (map (\<lambda>((i, r, c), v). ((i, c, r), v)) ?E)\<rparr>"
    unfolding coo_reshape2_def using size by simp
  show ?thesis
    unfolding F_to_C_def rs sum.case tr r2 ents ..
qed

lemma F_to_C_at:
  assumes "n_cols sf_F = W * H" and "csr_valid sf_F"
    and "i < shape0 sf_F" and "r < H" and "c < W"
  shows "\<exists>sf. F_to_C sf_F H W = Inr sf \<and> shape0 sf = shape0 sf_F \<and> n_cols sf = W * H
           \<and> csr_at sf i (r * W + c) = csr_at sf_F i (c * H + r)"
proof -
  let ?f = "\<lambda>k. (k mod H) * W + k div H"
  let ?y = "\<lparr>coo2_shape = (shape0 sf_F, W * H),
           coo2_entries = concat (map (\<lambda>(i, row). map (\<lambda>(k, v). ((i, ?f k), v)) row)
                                     (enumerate 0 (map sum_duplicates (csr_rows sf_F))))\<rparr>"
  let ?row = "sum_duplicates (csr_rows sf_F ! i)"
  have eq: "F_to_C sf_F H W = Inr (coo_tocsr ?y)"
    using assms(1,2) by (rule F_to_C_entries)
  have i: "i < length (csr_rows sf_F)" using assms(3) by (simp add: shape0_def)
  have "list_all (\<lambda>(k, v). k < W * H) (csr_rows sf_F ! i)"
    using assms(1,2) i by (auto simp: csr_valid_def list_all_iff)
  then have "list_all (\<lambda>(k, v). k < W * H) ?row" by (rule sum_duplicates_bound)
  then have valid: "\<And>k v. (k, v) \<in> set ?row \<Longrightarrow> k < W * H"
    by (auto simp: list_all_iff)
  have flt: "filter (\<lambda>((i', k), v). i' = i) (coo2_entries ?y) = map (\<lambda>(k, v). ((i, ?f k), v)) ?row"
    using filter_row_blocks[of i ?f 0 "map sum_duplicates (csr_rows sf_F)"] i by simp
  have mm: "map (\<lambda>((i', k), v). (k, v)) (map (\<lambda>(k, v). ((i, ?f k), v)) ?row)
      = map (\<lambda>(k, v). (?f k, v)) ?row"
    by (simp add: case_prod_unfold comp_def)
  have "csr_rows (coo_tocsr ?y) ! i
      = sort_key fst (map (\<lambda>((i', k), v). (k, v)) (filter (\<lambda>((i', k), v). i' = i) (coo2_entries ?y)))"
    using assms(3) by (simp add: coo_tocsr_def)
  then have row: "csr_rows (coo_tocsr ?y) ! i = sort_key fst (map (\<lambda>(k, v). (?f k, v)) ?row)"
    unfolding flt mm .
  have "csr_at (coo_tocsr ?y) i (r * W + c)
      = sum_list (map snd (filter (\<lambda>e. fst e = r * W + c) (map (\<lambda>(k, v). (?f k, v)) ?row)))"
    unfolding csr_at_def row by (rule sum_filter_sort)
  also have "\<dots> = sum_list (map snd (filter (\<lambda>e. ?f (fst e) = r * W + c) ?row))"
    by (simp add: filter_map comp_def case_prod_unfold)
  also have "filter (\<lambda>e. ?f (fst e) = r * W + c) ?row = filter (\<lambda>e. fst e = c * H + r) ?row"
  proof (rule filter_cong[OF refl])
    fix e assume "e \<in> set ?row"
    then have "fst e < W * H" using valid[of "fst e" "snd e"] by simp
    then show "(?f (fst e) = r * W + c) = (fst e = c * H + r)"
      using assms(4,5) by (rule transposed_index_iff)
  qed
  finally have at: "csr_at (coo_tocsr ?y) i (r * W + c) = csr_at sf_F i (c * H + r)"
    by (simp add: csr_at_def sum_duplicates_at)
  have "shape0 (coo_tocsr ?y) = shape0 sf_F" "n_cols (coo_tocsr ?y) = W * H"
    by (simp_all add: coo_tocsr_def shape0_def)
  with eq at show ?thesis by blast
qed


lemma length_grid: "length (concat (map (\<lambda>a. map (f a) [0..<n]) [0..<m])) = m * n"
  by (induction m) auto

lemma nth_grid:
  "a < m \<Longrightarrow> b < n \<Longrightarrow> concat (map (\<lambda>a. map (f a) [0..<n]) [0..<m]) ! (a * n + b) = f a b"
proof (induction m)
  case 0
  then show ?case by simp
next
  case (Suc m)
  show ?case
  proof (cases "a < m")
    case True
    with Suc.prems have "a * n + b < m * n"
      using digits_less[of a m b n] by (simp add: mult.commute)
    with Suc.IH[OF True Suc.prems(2)] show ?thesis
      by (simp add: nth_append length_grid)
  next
    case False
    with Suc.prems have "a = m" by simp
    with Suc.prems show ?thesis by (simp add: nth_append length_grid)
  qed
qed

lemma sum_enumerate_at:
  "sum_list (map snd (filter (\<lambda>e. fst e = k) (filter (\<lambda>(j, v). v \<noteq> 0) (enumerate m row))))
   = (if m \<le> k \<and> k < m + length row then row ! (k - m) else (0 :: rat))"
proof (induction row arbitrary: m)
  case Nil
  then show ?case by simp
next
  case (Cons x row)
  from Cons.IH[of "Suc m"] show ?case
    by (auto simp: nth_Cons' Suc_diff_le)
qed

lemma csr_at_of_dense:
  "i < length rows \<Longrightarrow> k < length (rows ! i) \<Longrightarrow> csr_at (csr_of_dense m rows) i k = rows ! i ! k"
proof -
  assume "i < length rows" "k < length (rows ! i)"
  then have "csr_at (csr_of_dense m rows) i k
      = sum_list (map snd (filter (\<lambda>e. fst e = k) (filter (\<lambda>(j, v). v \<noteq> 0) (enumerate 0 (rows ! i)))))"
    by (simp only: csr_at_def csr_of_dense_def csr_matrix.simps nth_map)
  also have "\<dots> = rows ! i ! k"
    using \<open>k < length (rows ! i)\<close> unfolding sum_enumerate_at by simp
  finally show ?thesis .
qed

lemma csr_valid_of_dense:
  "list_all (\<lambda>row. length row = m) rows \<Longrightarrow> csr_valid (csr_of_dense m rows)"
  by (auto simp: csr_valid_def csr_of_dense_def list_all_iff in_set_enumerate_eq)

lemma F_to_C_dense:
  "map_sum id csr_todense (F_to_C (csr_of_dense (W * H) (map (flatten_F H W) imgs)) H W)
   = Inr (map (flatten_C H W) imgs)"
proof -
  let ?sf_F = "csr_of_dense (W * H) (map (flatten_F H W) imgs)"
  have nc: "n_cols ?sf_F = W * H" by (simp add: csr_of_dense_def)
  have n: "shape0 ?sf_F = length imgs" by (simp add: csr_of_dense_def shape0_def)
  have lenF: "\<And>img. length (flatten_F H W img) = W * H" by (simp add: flatten_F_def length_grid)
  have lenC: "\<And>img. length (flatten_C H W img) = W * H"
    by (simp add: flatten_C_def length_grid mult.commute)
  have valid: "csr_valid ?sf_F"
    by (rule csr_valid_of_dense) (simp add: list_all_iff lenF)
  from F_to_C_entries[OF nc valid] obtain sf where sf: "F_to_C ?sf_F H W = Inr sf" by blast
  have shp: "shape0 sf = length imgs" "n_cols sf = W * H"
    using sf F_to_C_entries[OF nc valid] n by (auto simp: coo_tocsr_def shape0_def)
  have at: "csr_at sf i k = flatten_C H W (imgs ! i) ! k" if i: "i < length imgs" and k: "k < W * H" for i k
  proof -
    from k have W: "W \<noteq> 0" by (cases W) auto
    let ?r = "k div W" and ?c = "k mod W"
    have c: "?c < W" using W by simp
    have r: "?r < H" using k by (simp add: less_mult_imp_div_less mult.commute)
    have kk: "k = ?r * W + ?c" by simp
    from F_to_C_at[OF nc valid, of i ?r ?c] i n r c sf
    have "csr_at sf i (?r * W + ?c) = csr_at ?sf_F i (?c * H + ?r)" by auto
    also have "\<dots> = flatten_F H W (imgs ! i) ! (?c * H + ?r)"
      using i digits_less[OF c r] by (simp add: csr_at_of_dense lenF mult.commute)
    also have "\<dots> = (imgs ! i) ?r ?c"
      unfolding flatten_F_def using c r by (rule nth_grid)
    also have "\<dots> = flatten_C H W (imgs ! i) ! (?r * W + ?c)"
      unfolding flatten_C_def using r c by (rule nth_grid[symmetric])
    finally show ?thesis using kk by simp
  qed
  have "csr_todense sf = map (flatten_C H W) imgs"
  proof (rule nth_equalityI)
    show "length (csr_todense sf) = length (map (flatten_C H W) imgs)"
      by (simp add: csr_todense_def shp)
  next
    fix i assume "i < length (csr_todense sf)"
    then have i: "i < length imgs" by (simp add: csr_todense_def shp)
    show "csr_todense sf ! i = map (flatten_C H W) imgs ! i"
    proof (rule nth_equalityI)
      show "length (csr_todense sf ! i) = length (map (flatten_C H W) imgs ! i)"
        using i by (simp add: csr_todense_def shp lenC)
    next
      fix k assume "k < length (csr_todense sf ! i)"
      then have k: "k < W * H" using i by (simp add: csr_todense_def shp)
      with i at[OF i k] show "csr_todense sf ! i ! k = map (flatten_C H W) imgs ! i ! k"
        by (simp add: csr_todense_def shp)
    qed
  qed
  with sf show ?thesis by simp
qed


lemma vstack_dense:
  "scipy_vstack2 (csr_of_dense m a) (csr_of_dense m b) = Inr (csr_of_dense m (a @ b))"
  by (simp add: scipy_vstack2_def csr_of_dense_def)

text \<open>
  Claim C3: for every FOV shape \<open>(H, W)\<close> and every well-formed component matrix
  \<open>sf_F\<close> with \<open>W * H\<close> columns, the conversion (reshape to \<open>(n, W, H)\<close>, transpose
  the spatial axes, reshape to \<open>(n, W * H)\<close>) succeeds and the value that \<open>sf_F\<close> holds
  at the column-major index \<open>c * H + r\<close> of pixel \<open>(r, c)\<close> is held by the result at
  the row-major index \<open>r * W + c\<close>. Consequently, images flattened in column-major
  order and passed through the adapter come out flattened in row-major order, with and
  without discarded components.
\<close>

theorem caiman_column_major_to_row_major:
  "(n_cols sf_F = W * H \<and> csr_valid sf_F \<longrightarrow>
      (\<exists>sf. F_to_C sf_F H W = Inr sf \<and> shape0 sf = shape0 sf_F \<and> n_cols sf = W * H
         \<and> (\<forall>i < shape0 sf_F. \<forall>r < H. \<forall>c < W.
               csr_at sf i (r * W + c) = csr_at sf_F i (c * H + r))))
   \<and> map_sum id csr_todense
        (import_spatialFootprints_caiman (H, W)
           (csr_of_dense (W * H) (map (flatten_F H W) included))
           (csr_of_dense (W * H) (map (flatten_F H W) discarded)) include_discarded)
      = Inr (map (flatten_C H W) (if include_discarded then included @ discarded else included))"
proof (intro conjI impI)
  assume a: "n_cols sf_F = W * H \<and> csr_valid sf_F"
  then have nc: "n_cols sf_F = W * H" and valid: "csr_valid sf_F" by simp_all
  from F_to_C_entries[OF nc valid] obtain sf where sf: "F_to_C sf_F H W = Inr sf" by blast
  have shp: "shape0 sf = shape0 sf_F" "n_cols sf = W * H"
    using sf F_to_C_entries[OF nc valid] by (auto simp: coo_tocsr_def shape0_def)
  have "\<forall>i < shape0 sf_F. \<forall>r < H. \<forall>c < W. csr_at sf i (r * W + c) = csr_at sf_F i (c * H + r)"
  proof (intro allI impI)
    fix i r c assume "i < shape0 sf_F" "r < H" "c < W"
    from F_to_C_at[OF nc valid this] sf
    show "csr_at sf i (r * W + c) = csr_at sf_F i (c * H + r)" by auto
  qed
  with sf shp show "\<exists>sf. F_to_C sf_F H W = Inr sf \<and> shape0 sf = shape0 sf_F \<and> n_cols sf = W * H
         \<and> (\<forall>i < shape0 sf_F. \<forall>r < H. \<forall>c < W.
               csr_at sf i (r * W + c) = csr_at sf_F i (c * H + r))"
    by blast
next
  show "map_sum id csr_todense
        (import_spatialFootprints_caiman (H, W)
           (csr_of_dense (W * H) (map (flatten_F H W) included))
           (csr_of_dense (W * H) (map (flatten_F H W) discarded)) include_discarded)
      = Inr (map (flatten_C H W) (if include_discarded then included @ discarded else included))"
    using F_to_C_dense[of W H "included @ discarded"] F_to_C_dense[of W H included]
    by (simp add: import_spatialFootprints_caiman_def vstack_dense)
qed

text \<open>
  Claim C3 at one component on a 2 x 3 FOV, stored in column-major order: the value 12 of
  pixel (1, 2) is at index 1 * 3 + 2 of the result.
\<close>

theorem caiman_column_major_to_row_major_witness:
  "n_cols \<lparr>n_cols = 6, csr_rows = [[(1, 10), (2, 1), (3, 11), (4, 2), (5, 12)]]\<rparr> = 3 * 2
   \<and> csr_valid \<lparr>n_cols = 6, csr_rows = [[(1, 10), (2, 1), (3, 11), (4, 2), (5, 12)]]\<rparr>
   \<and> (\<exists>sf. F_to_C \<lparr>n_cols = 6, csr_rows = [[(1, 10), (2, 1), (3, 11), (4, 2), (5, 12)]]\<rparr> 2 3 = Inr sf
         \<and> csr_at sf 0 (1 * 3 + 2) = 12)"
proof -
  let ?sf_F = "\<lparr>n_cols = 6, csr_rows = [[(1 :: nat, 10 :: weight), (2, 1), (3, 11), (4, 2), (5, 12)]]\<rparr>"
  have h1: "n_cols ?sf_F = 3 * 2" by simp
  have h2: "csr_valid ?sf_F" by (simp add: csr_valid_def)
  from caiman_column_major_to_row_major[of ?sf_F 3 2] h1 h2 obtain sf where
    sf: "F_to_C ?sf_F 2 3 = Inr sf"
    and at: "\<forall>i < shape0 ?sf_F. \<forall>r < 2. \<forall>c < 3. csr_at sf i (r * 3 + c) = csr_at ?sf_F i (c * 2 + r)"
    by blast
  have "(0 :: nat) < shape0 ?sf_F" "(1 :: nat) < 2" "(2 :: nat) < 3" by (simp_all add: shape0_def)
  with at have "csr_at sf 0 (1 * 3 + 2) = csr_at ?sf_F 0 (2 * 2 + 1)" by blast
  then have "csr_at sf 0 (1 * 3 + 2) = 12" by (simp add: csr_at_def)
  with sf have "\<exists>sf. F_to_C ?sf_F 2 3 = Inr sf \<and> csr_at sf 0 (1 * 3 + 2) = 12" by blast
  with h1 h2 show ?thesis by (simp only: simp_thms)
qed

section \<open>ROI-centred images: what the function computes\<close>

text \<open>The size argument has no effect on the result.\<close>

lemma centered_size_argument_unused:
  "sf_to_centeredROIs H W sf centroids out_height_width = sf_to_centeredROIs H W sf centroids (36, 36)"
  by (simp add: sf_to_centeredROIs_def)

text \<open>
  Whenever the function returns, the result has one image per ROI, of 36 rows and 36
  columns clipped to the FOV.
\<close>

lemma centered_shape:
  assumes "sf_to_centeredROIs H W sf centroids out_height_width = Inr d"
  shows "d_shape d = (shape0 sf, min 36 H, min 36 W)
    \<and> length (d_data d) = shape0 sf
    \<and> list_all (\<lambda>img. length img = min 36 H \<and> list_all (\<lambda>row. length row = min 36 W) img) (d_data d)"
  using assms
  by (auto simp: sf_to_centeredROIs_def Let_def todense_shape split: sum.splits if_splits)

text \<open>
  Splitting a concatenation of non-empty blocks at the cumulative block lengths gives the
  blocks back: with positive weights the groups of \<open>np.split\<close> are the ROIs.
\<close>

lemma cumsum_from_Nil: "cumsum_from a xs = [] \<longleftrightarrow> xs = []"
  by (cases xs) auto

lemma np_split_from_blocks:
  "bs \<noteq> [] \<Longrightarrow>
   np_split_from (length pre) (pre @ concat bs) (butlast (cumsum_from (length pre) (map length bs))) = bs"
proof (induction bs arbitrary: pre)
  case Nil
  then show ?case by simp
next
  case (Cons b bs)
  show ?case
  proof (cases "bs = []")
    case True
    then show ?thesis by simp
  next
    case False
    then have ne: "cumsum_from (length pre + length b) (map length bs) \<noteq> []"
      by (simp add: cumsum_from_Nil)
    from Cons.IH[OF False, of "pre @ b"]
    have "np_split_from (length pre + length b) (pre @ b @ concat bs)
            (butlast (cumsum_from (length pre + length b) (map length bs))) = bs"
      by simp
    with ne show ?thesis by simp
  qed
qed

lemma np_split_blocks:
  "bs \<noteq> [] \<Longrightarrow> np_split (concat bs) (butlast (cumsum (map length bs))) = bs"
  using np_split_from_blocks[of bs "[]"] by (simp add: np_split_def cumsum_def)

lemma filter_blocks_gen:
  assumes "\<And>j x. key (G j x) = j"
  shows "filter (\<lambda>e. key e = i \<and> Q e) (concat (map (\<lambda>(j, row). map (G j) row) (enumerate m rows)))
    = (if m \<le> i \<and> i < m + length rows then filter Q (map (G i) (rows ! (i - m))) else [])"
proof (induction rows arbitrary: m)
  case Nil
  then show ?case by auto
next
  case (Cons row rows)
  have hd: "filter (\<lambda>e. key e = i \<and> Q e) (map (G m) row) = (if m = i then filter Q (map (G i) row) else [])"
    using assms by (induction row) auto
  show ?case
    using Cons.IH[of "Suc m"] hd by (auto simp: nth_Cons' Suc_diff_le)
qed

lemma filter_key_le1:
  "distinct (map fst row) \<Longrightarrow> length (filter (\<lambda>e. fst e = k) row) \<le> 1"
proof (induction row)
  case Nil
  then show ?case by simp
next
  case (Cons e row)
  from Cons.prems have notin: "fst e \<notin> fst ` set row" and d: "distinct (map fst row)" by simp_all
  have "filter (\<lambda>e. fst e = k) row = []" if "fst e = k"
  proof -
    have "\<forall>x \<in> set row. fst x \<noteq> k" using notin that by (metis imageI)
    then show ?thesis by (simp add: filter_empty_conv)
  qed
  with Cons.IH[OF d] show ?case by auto
qed


lemma ceil_half_36: "ceil_half 36 = 18"
  by (simp add: ceil_half_def)

lemma map_nth_rows: "map (\<lambda>i. f (rows ! i)) [0..<length rows] = map f rows"
  by (rule nth_equalityI) simp_all

text \<open>
  For a well-formed footprint matrix whose stored weights are all positive, with one
  centroid per ROI, on a FOV of more than 36 columns, the function returns the dense view
  of the entries translated by \<open>18 - centroid\<close> and filtered by the window.
\<close>

lemma centered_result:
  assumes nc: "n_cols sf = H * W" and valid: "csr_valid sf"
    and pos: "list_all (\<lambda>row. row \<noteq> [] \<and> list_all (\<lambda>e. 0 < snd e) row) (csr_rows sf)"
    and ne: "csr_rows sf \<noteq> []"
    and len: "length cy = shape0 sf" "length cx = shape0 sf"
    and big: "36 < W"
  shows "sf_to_centeredROIs H W sf (cy, cx) out_height_width =
    Inr (todense (shape0 sf, min 36 H, min 36 W)
          (filter (\<lambda>((i, r, c), v). 0 \<le> r \<and> r < int (min 36 H) \<and> 0 \<le> c \<and> c < int (min 36 W))
             (concat (map (\<lambda>(i, row). map (\<lambda>(k, v). ((i, int (k div W) - cy ! i + 18,
                                                          int (k mod W) - cx ! i + 18), v)) row)
                          (enumerate 0 (map sum_duplicates (csr_rows sf)))))))"
proof -
  let ?rows = "map sum_duplicates (csr_rows sf)"
  let ?n = "length (csr_rows sf)"
  have pos': "list_all (\<lambda>row. row \<noteq> [] \<and> list_all (\<lambda>e. 0 < snd e) row) ?rows"
  proof -
    have "sum_duplicates row \<noteq> [] \<and> list_all (\<lambda>e. 0 < snd e) (sum_duplicates row)"
      if "row \<in> set (csr_rows sf)" for row
    proof -
      from pos that have "row \<noteq> []" "list_all (\<lambda>e. 0 < snd e) row"
        by (simp_all add: list_all_iff)
      then show ?thesis by (simp add: sum_duplicates_Nil_iff sum_duplicates_pos)
    qed
    then show ?thesis by (simp add: list_all_iff)
  qed
  have big': "(W \<le> 36) = False" using big by auto
  let ?g = "\<lambda>i (k, v). ((i, k div W, k mod W), v :: weight)"
  let ?bs = "map (\<lambda>(i, row). map (?g i) row) (enumerate 0 ?rows)"
  let ?E = "concat ?bs"
  let ?sf_rs = "\<lparr>coo_shape = (shape0 sf, H, W), coo_entries = ?E\<rparr>"
  let ?tr = "\<lambda>ii ((i, r, c), v). ((i :: nat, int r - cy ! ii + 18, int c - cx ! ii + 18), v :: weight)"
  have n: "shape0 sf = ?n" by (simp add: shape0_def)
  have rs: "coo_reshape3 (coo_of_csr sf) (shape0 sf, H, W) = Inr ?sf_rs"
    using reshape_footprints[OF nc valid] by (simp add: case_prod_unfold)
  have rows_ne: "list_all (\<lambda>row. row \<noteq> []) ?rows"
    using pos' by (simp add: list_all_iff)
  have c0: "coords0 ?sf_rs = concat (map (\<lambda>(i, row). replicate (length row) (int i)) (enumerate 0 ?rows))"
    using coords0_footprints[of "(shape0 sf, H, W)" "\<lambda>k. k div W" "\<lambda>k. k mod W" 0 ?rows]
    by (simp add: case_prod_unfold)
  have ok: "list_all (\<lambda>d. (of_int d :: rat) < 101 / 100) (np_diff (coords0 ?sf_rs))
          \<and> list_all (\<lambda>d. (of_int d :: rat) > - (1 / 100)) (np_diff (coords0 ?sf_rs))"
    unfolding assert_cond_iff c0 using steps_blocks[OF rows_ne, of 0] by simp
  have cnt: "length (filter (\<lambda>((i', r, c), v). i' = i \<and> 0 < v) ?E) = length (?rows ! i)" if "i < ?n" for i
  proof -
    have "(\<lambda>((i', r, c), v). i' = i \<and> 0 < v) = (\<lambda>e :: (nat \<times> nat \<times> nat) \<times> weight. fst (fst e) = i \<and> 0 < snd e)"
      by (simp add: fun_eq_iff)
    moreover have "filter (\<lambda>e. fst (fst e) = i \<and> 0 < snd e) ?E
        = filter (\<lambda>e. 0 < snd e) (map (?g i) (?rows ! i))"
      using filter_blocks_gen[of "\<lambda>e. fst (fst e)" ?g i "\<lambda>e. 0 < snd e" 0 ?rows] that
      by (simp add: case_prod_unfold)
    moreover have "filter (\<lambda>e. 0 < snd e) (map (?g i) (?rows ! i)) = map (?g i) (?rows ! i)"
      using pos' that by (auto simp: list_all_iff filter_id_conv case_prod_unfold)
    ultimately show ?thesis by simp
  qed
  have counts: "map (\<lambda>i. length (filter (\<lambda>((i', r, c), v). i' = i \<and> 0 < v) ?E)) [0..<?n] = map length ?rows"
  proof -
    have "map (\<lambda>i. length (filter (\<lambda>((i', r, c), v). i' = i \<and> 0 < v) ?E)) [0..<?n]
        = map (\<lambda>i. length (?rows ! i)) [0..<?n]"
      using cnt by (intro map_cong) auto
    also have "\<dots> = map length ?rows"
      using map_nth_rows[of length ?rows] by simp
    finally show ?thesis .
  qed
  have lens: "map length ?bs = map length ?rows"
    by (rule nth_equalityI) (simp_all add: nth_enumerate_eq)
  have bs_ne: "?bs \<noteq> []" using ne by (cases ?rows) simp_all
  have "np_split ?E (butlast (cumsum (map length ?rows))) = ?bs"
    using np_split_blocks[OF bs_ne] unfolding lens .
  then have split: "np_split ?E (butlast (cumsum
      (map (\<lambda>i. length (filter (\<lambda>((i', r, c), v). i' = i \<and> 0 < v) ?E)) [0..<?n]))) = ?bs"
    unfolding counts .
  have lenbs: "length ?bs = ?n" by simp
  have cent: "concat (map (\<lambda>(ii, grp). map (?tr ii) grp) (enumerate 0 ?bs))
      = concat (map (\<lambda>(i, row). map (\<lambda>(k, v). ((i, int (k div W) - cy ! i + 18,
                                                   int (k mod W) - cx ! i + 18), v)) row)
                    (enumerate 0 ?rows))"
  proof -
    have "map (\<lambda>(ii, grp). map (?tr ii) grp) (enumerate 0 ?bs)
        = map (\<lambda>(i, row). map (\<lambda>(k, v). ((i, int (k div W) - cy ! i + 18,
                                             int (k mod W) - cx ! i + 18), v)) row)
              (enumerate 0 ?rows)"
      by (rule nth_equalityI) (simp_all add: nth_enumerate_eq case_prod_unfold comp_def)
    then show ?thesis by simp
  qed
  let ?T = "concat (map (\<lambda>(i, row). map (\<lambda>(k, v). ((i, int (k div W) - cy ! i + 18,
                                                   int (k mod W) - cx ! i + 18), v)) row)
                        (enumerate 0 ?rows))"
  let ?win = "\<lambda>((i :: nat, r, c), v :: weight).
                0 \<le> r \<and> r < int (min 36 H) \<and> 0 \<le> c \<and> c < int (min 36 W)"
  have inside: "list_all (\<lambda>((i, r, c), v). np_index_valid (min 36 H) r \<and> np_index_valid (min 36 W) c)
                  (filter ?win ?T)"
    by (auto simp: list_all_iff np_index_valid_def)
  have same: "map (\<lambda>((i, r, c), v). ((i, np_index (min 36 H) r, np_index (min 36 W) c), v))
                  (filter ?win ?T) = filter ?win ?T"
    by (rule map_idI) (auto simp: np_index_def)
  show ?thesis
    unfolding sf_to_centeredROIs_def Let_def rs sum.case
    using ok len
    by (simp add: split[unfolded case_prod_unfold] n
        cent[unfolded case_prod_unfold] ceil_half_36 case_prod_unfold big'
        inside[unfolded case_prod_unfold] same[unfolded case_prod_unfold])
qed


lemma pixel_of_index:
  fixes k H W :: nat and y x :: int
  assumes "k < H * W"
  shows "(int (k div W) = y \<and> int (k mod W) = x)
     \<longleftrightarrow> (0 \<le> y \<and> y < int H \<and> 0 \<le> x \<and> x < int W \<and> k = nat y * W + nat x)"
proof
  from assms have W: "W \<noteq> 0" by (cases W) auto
  assume a: "int (k div W) = y \<and> int (k mod W) = x"
  have "k div W < H" using assms by (simp add: less_mult_imp_div_less)
  moreover have "k mod W < W" using W by simp
  moreover have "k = (k div W) * W + k mod W" by simp
  ultimately show "0 \<le> y \<and> y < int H \<and> 0 \<le> x \<and> x < int W \<and> k = nat y * W + nat x"
    using a by auto
next
  assume a: "0 \<le> y \<and> y < int H \<and> 0 \<le> x \<and> x < int W \<and> k = nat y * W + nat x"
  then have x: "nat x < W" by (simp add: nat_less_iff)
  from a have k: "k = nat y * W + nat x" by simp
  have "k div W = nat y" unfolding k using x by (rule div_add_less)
  moreover have "k mod W = nat x" unfolding k using x by simp
  ultimately show "int (k div W) = y \<and> int (k mod W) = x" using a by simp
qed

lemma single_entry_value:
  fixes F :: "(nat \<times> rat) list"
  assumes "length F \<le> 1"
  shows "(case map (\<lambda>e. (g e, snd e)) F of [] \<Rightarrow> 0 | e # es \<Rightarrow> snd (last (e # es)))
       = sum_list (map snd F)"
proof (cases F)
  case Nil
  then show ?thesis by simp
next
  case (Cons e es)
  with assms have "es = []" by simp
  with Cons show ?thesis by simp
qed

text \<open>
  On a FOV of more than 36 columns, cell \<open>(r, c)\<close> of the image of ROI \<open>i\<close> then holds
  the weight of the footprint at pixel \<open>(r + centroid_row - 18, c + centroid_col - 18)\<close>
  when that pixel lies in the FOV, and 0 otherwise: entries outside the 36 x 36 window are
  dropped, nothing is wrapped around, and every entry inside is at its translated
  position. This holds for every requested size.
\<close>

lemma centered_cell_value:
  assumes nc: "n_cols sf = H * W" and valid: "csr_valid sf"
    and pos: "list_all (\<lambda>row. row \<noteq> [] \<and> list_all (\<lambda>e. 0 < snd e) row) (csr_rows sf)"
    and len: "length cy = shape0 sf" "length cx = shape0 sf"
    and big: "36 < W"
    and i: "i < shape0 sf" and r: "r < min 36 H" and c: "c < min 36 W"
  shows "\<exists>d. sf_to_centeredROIs H W sf (cy, cx) out_height_width = Inr d
    \<and> d_shape d = (shape0 sf, min 36 H, min 36 W)
    \<and> d_data d ! i ! r ! c =
        (if 0 \<le> int r + cy ! i - 18 \<and> int r + cy ! i - 18 < int H
            \<and> 0 \<le> int c + cx ! i - 18 \<and> int c + cx ! i - 18 < int W
         then csr_at sf i (nat (int r + cy ! i - 18) * W + nat (int c + cx ! i - 18))
         else 0)"
proof -
  let ?rows = "map sum_duplicates (csr_rows sf)"
  let ?row = "?rows ! i"
  let ?y = "int r + cy ! i - 18" and ?x = "int c + cx ! i - 18"
  let ?k0 = "nat ?y * W + nat ?x"
  let ?inr = "0 \<le> ?y \<and> ?y < int H \<and> 0 \<le> ?x \<and> ?x < int W"
  let ?G = "\<lambda>i e. ((i :: nat, int (fst e div W) - cy ! i + 18, int (fst e mod W) - cx ! i + 18), snd e :: weight)"
  let ?T = "concat (map (\<lambda>(i, row). map (?G i) row) (enumerate 0 ?rows))"
  let ?win = "\<lambda>e :: (nat \<times> int \<times> int) \<times> weight.
      0 \<le> fst (snd (fst e)) \<and> fst (snd (fst e)) < int (min 36 H)
      \<and> 0 \<le> snd (snd (fst e)) \<and> snd (snd (fst e)) < int (min 36 W)"
  let ?S = "filter ?win ?T"
  have il: "i < length ?rows" using i by (simp add: shape0_def)
  then have il': "i < length (csr_rows sf)" by simp
  then have ne: "csr_rows sf \<noteq> []" by auto
  have res: "sf_to_centeredROIs H W sf (cy, cx) out_height_width
      = Inr (todense (shape0 sf, min 36 H, min 36 W) ?S)"
    using centered_result[OF nc valid pos ne len big, of out_height_width]
    by (simp add: case_prod_unfold)
  have row: "?row = sum_duplicates (csr_rows sf ! i)" using il' by simp
  have "list_all (\<lambda>(k, v). k < H * W) (csr_rows sf ! i)"
    using valid nc il' by (auto simp: csr_valid_def list_all_iff)
  then have "list_all (\<lambda>(k, v). k < H * W) ?row" unfolding row by (rule sum_duplicates_bound)
  then have vrow: "\<And>e. e \<in> set ?row \<Longrightarrow> fst e < H * W"
    by (auto simp: list_all_iff)
  have drow: "distinct (map fst ?row)" unfolding row by (rule distinct_sum_duplicates)
  have at: "sum_list (map snd (filter (\<lambda>e. fst e = k) ?row)) = csr_at sf i k" for k
    unfolding row csr_at_def by (rule sum_duplicates_at)
  have f1: "filter (\<lambda>(p, v). p = (i, int r, int c)) ?S
      = filter (\<lambda>e. fst (fst e) = i \<and> snd (fst e) = (int r, int c)) ?T"
    unfolding filter_filter using r c by (intro filter_cong) (auto simp: case_prod_unfold)
  have f2: "filter (\<lambda>e. fst (fst e) = i \<and> snd (fst e) = (int r, int c)) ?T
      = filter (\<lambda>e. snd (fst e) = (int r, int c)) (map (?G i) ?row)"
    using filter_blocks_gen[of "\<lambda>e. fst (fst e)" ?G i "\<lambda>e. snd (fst e) = (int r, int c)" 0 ?rows] il
    by simp
  have f3: "filter (\<lambda>e. snd (fst e) = (int r, int c)) (map (?G i) ?row)
      = map (?G i) (filter (\<lambda>e. int (fst e div W) = ?y \<and> int (fst e mod W) = ?x) ?row)"
    unfolding filter_map by (intro arg_cong[where f = "map (?G i)"] filter_cong) auto
  have f4_in: "filter (\<lambda>e. int (fst e div W) = ?y \<and> int (fst e mod W) = ?x) ?row
      = filter (\<lambda>e. fst e = ?k0) ?row" if inr: ?inr
  proof (rule filter_cong[OF refl])
    fix e assume "e \<in> set ?row"
    from pixel_of_index[OF vrow[OF this], of ?y ?x] inr
    show "(int (fst e div W) = ?y \<and> int (fst e mod W) = ?x) = (fst e = ?k0)" by simp
  qed
  have f4_out: "filter (\<lambda>e. int (fst e div W) = ?y \<and> int (fst e mod W) = ?x) ?row = []" if out: "\<not> ?inr"
  proof -
    have "\<forall>e \<in> set ?row. \<not> (int (fst e div W) = ?y \<and> int (fst e mod W) = ?x)"
    proof
      fix e assume "e \<in> set ?row"
      from pixel_of_index[OF vrow[OF this], of ?y ?x] out
      show "\<not> (int (fst e div W) = ?y \<and> int (fst e mod W) = ?x)" by blast
    qed
    then show ?thesis by (simp only: filter_empty_conv)
  qed
  have le1: "length (filter (\<lambda>e. fst e = ?k0) ?row) \<le> 1"
    using drow by (rule filter_key_le1)
  have flt: "filter (\<lambda>(p, v). p = (i, int r, int c)) ?S
      = map (?G i) (filter (\<lambda>e. int (fst e div W) = ?y \<and> int (fst e mod W) = ?x) ?row)"
    using f1 f2 f3 by (rule trans[OF trans])
  have val: "dense_at ?S i r c = (if ?inr then csr_at sf i ?k0 else 0)"
  proof (cases ?inr)
    case True
    have "dense_at ?S i r c =
        (case map (?G i) (filter (\<lambda>e. fst e = ?k0) ?row) of [] \<Rightarrow> 0 | e # es \<Rightarrow> snd (last (e # es)))"
      unfolding dense_at_def flt f4_in[OF True] ..
    also have "\<dots> = sum_list (map snd (filter (\<lambda>e. fst e = ?k0) ?row))"
      using le1 by (rule single_entry_value)
    also have "\<dots> = csr_at sf i ?k0" by (rule at)
    also have "\<dots> = (if ?inr then csr_at sf i ?k0 else 0)"
      using True by (rule if_P[symmetric])
    finally show ?thesis .
  next
    case False
    have "dense_at ?S i r c = (case map (?G i) [] of [] \<Rightarrow> 0 | e # es \<Rightarrow> snd (last (e # es)))"
      unfolding dense_at_def flt f4_out[OF False] ..
    also have "\<dots> = 0" by simp
    also have "0 = (if ?inr then csr_at sf i ?k0 else 0)"
      using False by (rule if_not_P[symmetric])
    finally show ?thesis .
  qed
  let ?d = "todense (shape0 sf, min 36 H, min 36 W) ?S"
  have "d_data ?d ! i ! r ! c = dense_at ?S i r c"
    using i r c by (rule todense_nth)
  then have nth: "d_data ?d ! i ! r ! c = (if ?inr then csr_at sf i ?k0 else 0)"
    using val by (rule trans)
  have shp: "d_shape ?d = (shape0 sf, min 36 H, min 36 W)"
    by (rule todense_shape(1))
  show ?thesis
    by (rule exI[of _ ?d]) (intro conjI res shp nth)
qed

text \<open>
  On a FOV of at most 36 columns the translated column coordinates are used as array
  indices, and so are the row coordinates when there are at most 36 rows. On a 16 x 16
  FOV an ROI of one pixel at its centroid is translated to row 18, outside the array: the
  function raises \<open>IndexError\<close>. On a 30 x 30 FOV with centroid (26, 26), the pixel (0, 0)
  is translated to (-8, -8) and stored at (22, 22), counted from the end; the pixel
  (29, 29) is stored at (21, 21). On a 40 x 30 FOV with centroid (20, 26), the pixel
  (20, 0) is translated to (18, -8) and stored at (18, 22).
\<close>

lemma centered_small_fov_raises:
  "sf_to_centeredROIs 16 16 \<lparr>n_cols = 256, csr_rows = [[(136, 1)]]\<rparr> ([8], [8]) (36, 36)
   = Inl IndexError"
  by (simp add: sf_to_centeredROIs_def coo_reshape3_def coo_of_csr_def sum_duplicates_def shape0_def
      coords0_def cumsum_def np_split_def ceil_half_def np_index_def np_index_valid_def enumerate_eq_zip upt_rec Let_def)

lemma centered_small_fov_wraps:
  "sf_to_centeredROIs 30 30 \<lparr>n_cols = 900, csr_rows = [[(0, 1 / 10), (899, 9 / 10)]]\<rparr>
     ([26], [26]) (36, 36)
   = Inr (todense (1, 30, 30) [((0, 22, 22), 1 / 10), ((0, 21, 21), 9 / 10)])"
  by (simp add: sf_to_centeredROIs_def coo_reshape3_def coo_of_csr_def sum_duplicates_def shape0_def
      coords0_def cumsum_def np_split_def ceil_half_def np_index_def np_index_valid_def enumerate_eq_zip upt_rec Let_def)

lemma centered_narrow_fov_wraps:
  "sf_to_centeredROIs 40 30 \<lparr>n_cols = 1200, csr_rows = [[(600, 1 / 10), (629, 9 / 10)]]\<rparr>
     ([20], [26]) (36, 36)
   = Inr (todense (1, 36, 30) [((0, 18, 22), 1 / 10), ((0, 18, 21), 9 / 10)])"
  by (simp add: sf_to_centeredROIs_def coo_reshape3_def coo_of_csr_def sum_duplicates_def shape0_def
      coords0_def cumsum_def np_split_def ceil_half_def np_index_def np_index_valid_def enumerate_eq_zip upt_rec Let_def)

end
